theory Spec2Isabelle
  imports Main "HOL-Library.Word"
begin

unbundle bit_operations_syntax

section \<open>The packed bit array of \<^verbatim>\<open>everybit/bitarray.c\<close>\<close>

text \<open>
  The model follows the C source on an LP64 little-endian target: \<^verbatim>\<open>size_t\<close> and
  \<^verbatim>\<open>uint64_t\<close> are \<open>64 word\<close>, \<^verbatim>\<open>ssize_t\<close> is a \<open>64 word\<close> read in two's
  complement (\<open>sint\<close>, \<open><s\<close>), \<^verbatim>\<open>char\<close> and \<^verbatim>\<open>uint8_t\<close> are \<open>8 word\<close>, \<^verbatim>\<open>int\<close> is
  \<open>32 word\<close>. The buffer is the list of its bytes; its length is the size of the
  allocation. Every access to the buffer is checked against that length, and an
  access outside it is the error \<open>OutOfBounds\<close>; a failed \<^verbatim>\<open>assert\<close> is the error
  \<open>AssertionFailed\<close>.
\<close>

datatype error = AssertionFailed | OutOfBounds

record bitarray =
  bit_sz :: "64 word"
  buf :: "8 word list"

text \<open>Sequencing of fallible steps: the first error ends the computation.\<close>

definition bind_res :: "error + 'a \<Rightarrow> ('a \<Rightarrow> error + 'b) \<Rightarrow> error + 'b" where
  "bind_res m f = (case m of Inl e \<Rightarrow> Inl e | Inr x \<Rightarrow> f x)"

text \<open>
  \<^verbatim>\<open>bitarray_new\<close> allocates \<^verbatim>\<open>(bit_sz+7) / 8\<close> zeroed bytes (allocation failure is
  not modelled). An array is well formed when its buffer has \<open>ceil(bit_sz/8)\<close> bytes.
\<close>

definition bitarray_new :: "64 word \<Rightarrow> bitarray" where
  "bitarray_new sz = \<lparr>bit_sz = sz, buf = replicate (unat ((sz + 7) div 8)) 0\<rparr>"

definition bitarray_get_bit_sz :: "bitarray \<Rightarrow> 64 word" where
  "bitarray_get_bit_sz a = bit_sz a"

definition wf_bitarray :: "bitarray \<Rightarrow> bool" where
  "wf_bitarray a = (length (buf a) = (unat (bit_sz a) + 7) div 8)"

subsection \<open>Raw buffer accesses\<close>

text \<open>\<^verbatim>\<open>b->buf[k]\<close> as an rvalue and as an lvalue.\<close>

definition read_byte :: "bitarray \<Rightarrow> 64 word \<Rightarrow> error + 8 word" where
  "read_byte a k = (if unat k < length (buf a) then Inr (buf a ! unat k) else Inl OutOfBounds)"

definition write_byte :: "bitarray \<Rightarrow> 64 word \<Rightarrow> 8 word \<Rightarrow> error + bitarray" where
  "write_byte a k v =
     (if unat k < length (buf a) then Inr (a\<lparr>buf := (buf a)[unat k := v]\<rparr>) else Inl OutOfBounds)"

text \<open>
  The value of a byte sequence read as a little-endian \<^verbatim>\<open>uint64_t\<close>, and the eight
  bytes of a \<^verbatim>\<open>uint64_t\<close> in memory order.
\<close>

primrec le_word :: "8 word list \<Rightarrow> 64 word" where
  "le_word [] = 0"
| "le_word (b # bs) = ucast b OR push_bit 8 (le_word bs)"

definition le_bytes :: "64 word \<Rightarrow> 8 word list" where
  "le_bytes v = map (\<lambda>i. ucast (drop_bit (8 * i) v)) [0..<8]"

text \<open>
  \<^verbatim>\<open>memcpy(&w, b->buf + k, sizeof(uint64_t))\<close> and
  \<^verbatim>\<open>memcpy(b->buf + k, &v, sizeof(uint64_t))\<close>: eight bytes from byte index \<open>k\<close>.
\<close>

definition load_u64 :: "bitarray \<Rightarrow> 64 word \<Rightarrow> error + 64 word" where
  "load_u64 a k =
     (if unat k + 8 \<le> length (buf a) then Inr (le_word (take 8 (drop (unat k) (buf a))))
      else Inl OutOfBounds)"

definition store_u64 :: "bitarray \<Rightarrow> 64 word \<Rightarrow> 64 word \<Rightarrow> error + bitarray" where
  "store_u64 a k v =
     (if unat k + 8 \<le> length (buf a)
      then Inr (a\<lparr>buf := take (unat k) (buf a) @ le_bytes v @ drop (unat k + 8) (buf a)\<rparr>)
      else Inl OutOfBounds)"

subsection \<open>Single bits\<close>

text \<open>\<^verbatim>\<open>bitmask\<close>: \<^verbatim>\<open>1 << (bit_index % 8)\<close>, an \<^verbatim>\<open>int\<close> converted to \<^verbatim>\<open>char\<close>.\<close>

definition bitmask :: "64 word \<Rightarrow> 8 word" where
  "bitmask bit_index = ucast (push_bit (unat (bit_index mod 8)) (1 :: 32 word))"

text \<open>
  In \<^verbatim>\<open>bitarray_get\<close> and \<^verbatim>\<open>bitarray_set\<close> the \<^verbatim>\<open>char\<close> operands of \<^verbatim>\<open>&\<close>, \<^verbatim>\<open>|\<close> and
  \<^verbatim>\<open>~\<close> are promoted to \<^verbatim>\<open>int\<close> with their sign (\<open>scast\<close>); the result of
  \<^verbatim>\<open>bitarray_set\<close>'s expression is converted back to \<^verbatim>\<open>char\<close> (\<open>ucast\<close>).
\<close>

definition bitarray_get :: "bitarray \<Rightarrow> 64 word \<Rightarrow> error + bool" where
  "bitarray_get a bit_index =
     (if \<not> bit_index < bit_sz a then Inl AssertionFailed
      else bind_res (read_byte a (bit_index div 8)) (\<lambda>b.
        Inr ((scast b AND scast (bitmask bit_index) :: 32 word) \<noteq> 0)))"

definition bitarray_set :: "bitarray \<Rightarrow> 64 word \<Rightarrow> bool \<Rightarrow> error + bitarray" where
  "bitarray_set a bit_index v =
     (if \<not> bit_index < bit_sz a then Inl AssertionFailed
      else bind_res (read_byte a (bit_index div 8)) (\<lambda>b.
        write_byte a (bit_index div 8)
          (ucast ((scast b AND NOT (scast (bitmask bit_index)))
                  OR (if v then scast (bitmask bit_index) else 0) :: 32 word))))"

subsection \<open>Wide accessors\<close>

definition bitarray_get_u64 :: "bitarray \<Rightarrow> 64 word \<Rightarrow> error + 64 word" where
  "bitarray_get_u64 b bit_index =
     (let byte_idx = bit_index div 8;
          bit_off = bit_index mod 8
      in bind_res (load_u64 b byte_idx) (\<lambda>low_word.
           if bit_off = 0 then Inr low_word
           else bind_res (read_byte b (byte_idx + 8)) (\<lambda>high_byte.
             Inr (drop_bit (unat bit_off) low_word
                  OR push_bit (64 - unat bit_off) (ucast high_byte :: 64 word)))))"

definition bitarray_set_u64 :: "bitarray \<Rightarrow> 64 word \<Rightarrow> 64 word \<Rightarrow> error + bitarray" where
  "bitarray_set_u64 b bit_index v =
     (let byte_idx = bit_index div 8;
          bit_off = bit_index mod 8
      in if bit_off = 0 then store_u64 b byte_idx v
         else
           bind_res (load_u64 b byte_idx) (\<lambda>old_word.
           bind_res (read_byte b (byte_idx + 8)) (\<lambda>old_byte.
             let mask_lo = push_bit (unat bit_off) (1 :: 64 word) - 1;
                 mask_hi = (ucast (NOT (push_bit (unat bit_off) (1 :: 32 word) - 1)) :: 8 word);
                 new_word = (old_word AND mask_lo) OR push_bit (unat bit_off) v;
                 new_byte = (old_byte AND mask_hi)
                            OR (ucast (drop_bit (64 - unat bit_off) v) :: 8 word)
             in bind_res (store_u64 b byte_idx new_word) (\<lambda>b1.
                write_byte b1 (byte_idx + 8) new_byte))))"

subsection \<open>Range reversal\<close>

text \<open>
  The body of the bulk loop of \<^verbatim>\<open>bitarray_reverse_range\<close>: two wide reads, two word
  reversals (\<^verbatim>\<open>__builtin_bitreverse64\<close> is \<open>word_reverse\<close>), two wide writes.
\<close>

definition reverse_bulk_body :: "bitarray \<Rightarrow> 64 word \<Rightarrow> 64 word \<Rightarrow> error + bitarray" where
  "reverse_bulk_body a left right =
     bind_res (bitarray_get_u64 a left) (\<lambda>left_val.
     bind_res (bitarray_get_u64 a (right - 64)) (\<lambda>right_val.
     bind_res (bitarray_set_u64 a (right - 64) (word_reverse left_val)) (\<lambda>a1.
       bitarray_set_u64 a1 left (word_reverse right_val))))"

text \<open>The \<^verbatim>\<open>while (remaining >= 128)\<close> loop; it returns the array and the three counters.\<close>

function reverse_bulk ::
  "bitarray \<Rightarrow> 64 word \<Rightarrow> 64 word \<Rightarrow> 64 word \<Rightarrow> error + (bitarray \<times> 64 word \<times> 64 word \<times> 64 word)"
where
  "reverse_bulk a left right remaining =
     (if 128 \<le> remaining then
        (case reverse_bulk_body a left right of
           Inl e \<Rightarrow> Inl e
         | Inr a' \<Rightarrow> reverse_bulk a' (left + 64) (right - 64) (remaining - 128))
      else Inr (a, left, right, remaining))"
  by pat_completeness auto
termination
proof (relation "measure (\<lambda>(a, left, right, remaining). unat remaining)")
  show "wf (measure (\<lambda>(a, left, right, remaining). unat remaining))"
    by simp
next
  fix a :: bitarray and left right remaining :: "64 word" and a' :: bitarray
  assume "128 \<le> remaining"
  then have "unat (remaining - 128) < unat remaining"
    by unat_arith
  then show "((a', left + 64, right - 64, remaining - 128), (a, left, right, remaining))
      \<in> measure (\<lambda>(a, left, right, remaining). unat remaining)"
    by simp
qed

text \<open>The body of the tail loop: swap bit \<open>i\<close> with its mirror.\<close>

definition reverse_tail_body :: "bitarray \<Rightarrow> 64 word \<Rightarrow> 64 word \<Rightarrow> 64 word \<Rightarrow> error + bitarray" where
  "reverse_tail_body a left right i =
     bind_res (bitarray_get a i) (\<lambda>temp.
       let mirror_idx = (right - 1) - (i - left)
       in bind_res (bitarray_get a mirror_idx) (\<lambda>m.
          bind_res (bitarray_set a i m) (\<lambda>a1.
            bitarray_set a1 mirror_idx temp)))"

text \<open>The \<^verbatim>\<open>for (size_t i = left; i < final_mid; ++i)\<close> loop.\<close>

function reverse_tail ::
  "bitarray \<Rightarrow> 64 word \<Rightarrow> 64 word \<Rightarrow> 64 word \<Rightarrow> 64 word \<Rightarrow> error + bitarray"
where
  "reverse_tail a left right final_mid i =
     (if i < final_mid then
        (case reverse_tail_body a left right i of
           Inl e \<Rightarrow> Inl e
         | Inr a' \<Rightarrow> reverse_tail a' left right final_mid (i + 1))
      else Inr a)"
  by pat_completeness auto
termination
proof (relation "measure (\<lambda>(a, left, right, final_mid, i). unat final_mid - unat i)")
  show "wf (measure (\<lambda>(a, left, right, final_mid, i). unat final_mid - unat i))"
    by simp
next
  fix a :: bitarray and left right final_mid i :: "64 word" and a' :: bitarray
  assume "i < final_mid"
  then have "unat final_mid - unat (i + 1) < unat final_mid - unat i"
    by unat_arith
  then show "((a', left, right, final_mid, i + 1), (a, left, right, final_mid, i))
      \<in> measure (\<lambda>(a, left, right, final_mid, i). unat final_mid - unat i)"
    by simp
qed

definition bitarray_reverse_range :: "bitarray \<Rightarrow> 64 word \<Rightarrow> 64 word \<Rightarrow> error + bitarray" where
  "bitarray_reverse_range a start len =
     bind_res (reverse_bulk a start (start + len) len) (\<lambda>(a1, left, right, remaining).
       let final_mid = left + remaining div 2
       in reverse_tail a1 left right final_mid left)"

subsection \<open>Rotation\<close>

text \<open>
  The normalisation step of \<^verbatim>\<open>bitarray_rotate\<close>. The negation of an \<^verbatim>\<open>ssize_t\<close> is
  two's complement (the least value, whose negation ISO C leaves undefined, negates
  to itself as on the target); \<^verbatim>\<open>%\<close> with a \<^verbatim>\<open>size_t\<close> divisor converts the dividend
  to \<^verbatim>\<open>size_t\<close> and is unsigned; the result is stored back into the \<^verbatim>\<open>ssize_t\<close> and
  read again as \<^verbatim>\<open>size_t\<close>, which keeps its 64 bits.
\<close>

definition rotate_amount :: "64 word \<Rightarrow> 64 word \<Rightarrow> 64 word" where
  "rotate_amount bit_length bit_right_amount =
     (if bit_right_amount <s 0 then bit_length - ((- bit_right_amount) mod bit_length)
      else bit_right_amount mod bit_length)"

definition bitarray_rotate :: "bitarray \<Rightarrow> 64 word \<Rightarrow> 64 word \<Rightarrow> 64 word \<Rightarrow> error + bitarray" where
  "bitarray_rotate a bit_offset bit_length bit_right_amount =
     (if bit_length = 0 then Inr a
      else
        let amount = rotate_amount bit_length bit_right_amount
        in if amount = 0 then Inr a
           else
             let split_idx = bit_length - amount
             in bind_res (bitarray_reverse_range a bit_offset split_idx) (\<lambda>a1.
                bind_res (bitarray_reverse_range a1 (bit_offset + split_idx) amount) (\<lambda>a2.
                  bitarray_reverse_range a2 bit_offset bit_length)))"

subsection \<open>The bits of the buffer\<close>

text \<open>
  Bit \<open>n\<close> of the packed buffer: position \<open>n mod 8\<close> (counted from the least
  significant bit) of byte \<open>n div 8\<close>. This is the bit \<^verbatim>\<open>bitarray_get\<close> reads.
\<close>

definition bit_at :: "bitarray \<Rightarrow> nat \<Rightarrow> bool" where
  "bit_at a n = bit (buf a ! (n div 8)) (n mod 8)"

section \<open>Facts about the operations\<close>

declare reverse_bulk.simps [simp del] reverse_tail.simps [simp del]

lemma bind_res_Inr [simp]: "bind_res (Inr x) f = f x"
  by (simp add: bind_res_def)

lemma bind_res_Inl [simp]: "bind_res (Inl e) f = Inl e"
  by (simp add: bind_res_def)

subsection \<open>Sizes and byte indices\<close>

lemma bitarray_new_wf:
  assumes "unat sz + 7 < 2 ^ 64"
  shows "wf_bitarray (bitarray_new sz)"
proof -
  from assms have "unat sz + unat (7 :: 64 word) < 2 ^ LENGTH(64)" by simp
  then have "unat (sz + 7) = unat sz + unat (7 :: 64 word)"
    by (simp only: unat_add_lem)
  then have "unat ((sz + 7) div 8) = (unat sz + 7) div 8"
    by (simp add: unat_div)
  then show ?thesis
    by (simp add: wf_bitarray_def bitarray_new_def)
qed

lemma unat_div8: "unat ((i :: 64 word) div 8) = unat i div 8"
  by (simp add: unat_div)

lemma unat_mod8: "unat ((i :: 64 word) mod 8) = unat i mod 8"
  by (simp add: unat_mod)

subsection \<open>The single-bit accessors\<close>

text \<open>
  \<^verbatim>\<open>bitarray_get\<close> returns \<open>bit_at\<close>, and \<^verbatim>\<open>bitarray_set\<close> changes that one bit; the
  sign extension of the \<^verbatim>\<open>char\<close> operands does not reach the eight low bits.
\<close>

lemma bit_bitmask: "bit (bitmask i) n \<longleftrightarrow> n = unat i mod 8"
  by (auto simp add: bitmask_def bit_simps unat_mod8 )

lemma get_byte_test:
  "((scast (b :: 8 word) AND scast (bitmask i) :: 32 word) \<noteq> 0) = bit b (unat i mod 8)"
proof (cases "bit b (unat i mod 8)")
  case True
  have "min (unat i mod 8) 7 = unat i mod 8" by simp
  with True have "bit (scast b AND scast (bitmask i) :: 32 word) (unat i mod 8)"
    by (simp add: bit_simps bit_bitmask)
  then have "(scast b AND scast (bitmask i) :: 32 word) \<noteq> 0"
    by auto
  with True show ?thesis by simp
next
  case False
  have "(scast b AND scast (bitmask i) :: 32 word) = 0"
  proof (rule bit_word_eqI)
    fix n assume "n < LENGTH(32)"
    have "min (unat i mod 8) 7 = unat i mod 8" by simp
    with False show "bit (scast b AND scast (bitmask i) :: 32 word) n = bit (0 :: 32 word) n"
      by (auto simp add: bit_simps bit_bitmask)
  qed
  with False show ?thesis by simp
qed

lemma set_byte_bits:
  "bit (ucast ((scast (b :: 8 word) AND NOT (scast (bitmask i)))
                  OR (if v then scast (bitmask i) else 0) :: 32 word) :: 8 word) n
   \<longleftrightarrow> n < 8 \<and> (if n = unat i mod 8 then v else bit b n)"
proof (cases "n < 8")
  case True
  then have "min n 7 = n" by simp
  with True show ?thesis by (auto simp add: bit_simps bit_bitmask)
next
  case False
  then show ?thesis by (auto simp add: bit_simps)
qed

lemma wf_byte_in_bounds:
  "wf_bitarray a \<Longrightarrow> n < unat (bit_sz a) \<Longrightarrow> n div 8 < length (buf a)"
  by (simp add: wf_bitarray_def)

lemma wf_bits_in_buffer:
  "wf_bitarray a \<Longrightarrow> unat (bit_sz a) \<le> 8 * length (buf a)"
  by (simp add: wf_bitarray_def)

lemma bitarray_get_eq:
  assumes "i < bit_sz a" and "unat i div 8 < length (buf a)"
  shows "bitarray_get a i = Inr (bit_at a (unat i))"
  using assms
  by (simp add: bitarray_get_def read_byte_def unat_div8 get_byte_test bit_at_def)

lemma bitarray_set_eq:
  assumes "i < bit_sz a" and "unat i div 8 < length (buf a)"
  shows "\<exists>a'. bitarray_set a i v = Inr a' \<and> bit_sz a' = bit_sz a
           \<and> length (buf a') = length (buf a)
           \<and> (\<forall>n. bit_at a' n = (if n = unat i then v else bit_at a n))"
proof -
  let ?nb = "ucast ((scast (buf a ! (unat i div 8)) AND NOT (scast (bitmask i)))
                  OR (if v then scast (bitmask i) else 0) :: 32 word) :: 8 word"
  let ?a' = "a\<lparr>buf := (buf a)[unat i div 8 := ?nb]\<rparr>"
  have r: "bitarray_set a i v = Inr ?a'"
    using assms by (simp add: bitarray_set_def read_byte_def write_byte_def unat_div8)
  have "bit_at ?a' n = (if n = unat i then v else bit_at a n)" for n
  proof (cases "n div 8 = unat i div 8")
    case True
    have "n mod 8 < 8" by simp
    with True assms(2) have "bit_at ?a' n = (if n mod 8 = unat i mod 8 then v else bit_at a n)"
      by (simp add: bit_at_def set_byte_bits)
    moreover from True have "n mod 8 = unat i mod 8 \<longleftrightarrow> n = unat i"
      by (metis div_mult_mod_eq)
    ultimately show ?thesis by simp
  next
    case False
    then have "n \<noteq> unat i" by auto
    with False show ?thesis by (simp add: bit_at_def)
  qed
  with r show ?thesis by simp
qed

subsection \<open>Eight-byte loads and stores\<close>

lemma bit_le_word:
  "bit (le_word bs) n \<longleftrightarrow> n < 64 \<and> n div 8 < length bs \<and> bit (bs ! (n div 8)) (n mod 8)"
proof (induction bs arbitrary: n)
  case Nil
  then show ?case by simp
next
  case (Cons b bs)
  show ?case
  proof (cases "n < 8")
    case True
    then show ?thesis by (auto simp add: bit_simps Cons.IH)
  next
    case False
    then have "n div 8 = Suc ((n - 8) div 8)" "(n - 8) mod 8 = n mod 8"
      by (simp_all add: le_div_geq le_mod_geq)
    with False show ?thesis by (auto simp add: bit_simps Cons.IH dest: bit_imp_le_length)
  qed
qed

lemma length_le_bytes: "length (le_bytes v) = 8"
  by (simp add: le_bytes_def)

lemma nth_le_bytes: "i < 8 \<Longrightarrow> le_bytes v ! i = ucast (drop_bit (8 * i) v)"
  by (simp add: le_bytes_def)

lemma bit_at_load:
  assumes "k + 8 \<le> length (buf a)" and "j < 64"
  shows "bit (le_word (take 8 (drop k (buf a)))) j = bit_at a (8 * k + j)"
proof -
  from assms have j: "j div 8 < 8" by simp
  have "(8 * k + j) div 8 = k + j div 8" "(8 * k + j) mod 8 = j mod 8"
    by simp_all
  with assms j show ?thesis
    by (simp add: bit_le_word bit_at_def)
qed

lemma load_u64_eq:
  assumes "unat k + 8 \<le> length (buf a)"
  shows "\<exists>w. load_u64 a k = Inr w \<and> (\<forall>j<64. bit w j = bit_at a (8 * unat k + j))"
  using assms by (simp add: load_u64_def bit_at_load)

lemma store_u64_eq:
  assumes "unat k + 8 \<le> length (buf a)"
  shows "\<exists>a'. store_u64 a k v = Inr a' \<and> bit_sz a' = bit_sz a
           \<and> length (buf a') = length (buf a)
           \<and> (\<forall>n < 8 * length (buf a). bit_at a' n =
                 (if 8 * unat k \<le> n \<and> n < 8 * unat k + 64 then bit v (n - 8 * unat k)
                  else bit_at a n))"
proof -
  let ?b = "take (unat k) (buf a) @ le_bytes v @ drop (unat k + 8) (buf a)"
  let ?a' = "a\<lparr>buf := ?b\<rparr>"
  have r: "store_u64 a k v = Inr ?a'"
    using assms by (simp add: store_u64_def)
  have len: "length ?b = length (buf a)"
    using assms by (simp add: length_le_bytes)
  have "bit_at ?a' n = (if 8 * unat k \<le> n \<and> n < 8 * unat k + 64 then bit v (n - 8 * unat k)
                  else bit_at a n)" if n: "n < 8 * length (buf a)" for n
  proof -
    let ?m = "n div 8"
    from n have m: "?m < length (buf a)" by simp
    consider "?m < unat k" | "unat k \<le> ?m" "?m < unat k + 8" | "unat k + 8 \<le> ?m"
      by linarith
    then show ?thesis
    proof cases
      case 1
      then have "n < 8 * unat k" by simp
      with 1 assms show ?thesis by (simp add: bit_at_def nth_append)
    next
      case 2
      then have rng: "8 * unat k \<le> n" "n < 8 * unat k + 64" by simp_all
      from 2 have "?m - unat k < 8" by simp
      with 2 assms have "?b ! ?m = le_bytes v ! (?m - unat k)"
        by (simp add: nth_append length_le_bytes)
      also from \<open>?m - unat k < 8\<close> have "\<dots> = ucast (drop_bit (8 * (?m - unat k)) v)"
        by (simp add: nth_le_bytes)
      finally have "bit_at ?a' n = bit v (8 * (?m - unat k) + n mod 8)"
        by (simp add: bit_at_def bit_simps)
      moreover from 2 have "8 * (?m - unat k) + n mod 8 = n - 8 * unat k"
        by (simp add: diff_mult_distrib2) 
      ultimately show ?thesis using rng by simp
    next
      case 3
      then have "\<not> n < 8 * unat k + 64" by simp
      moreover from 3 have "\<not> ?m < unat k" "\<not> ?m - unat k < 8"
        "unat k + 8 + (?m - unat k - 8) = ?m" by simp_all
      with m assms have "?b ! ?m = buf a ! ?m"
        by (simp add: nth_append length_le_bytes)
      ultimately show ?thesis by (simp add: bit_at_def)
    qed
  qed
  with r len show ?thesis by simp
qed

subsection \<open>The wide read\<close>

text \<open>
  Bit \<open>j\<close> of the word read at \<open>i\<close> is bit \<open>i + j\<close> of the buffer: from the low word
  while \<open>j + i mod 8 < 64\<close>, from the ninth byte above.
\<close>

lemma unat_plus8: "unat ((i :: 64 word) div 8 + 8) = unat i div 8 + 8"
proof -
  have "unat i < 2 ^ 64"
    using unsigned_less[of i] by simp
  then have "unat (i div 8) + unat (8 :: 64 word) < 2 ^ LENGTH(64)"
    by (simp add: unat_div8)
  then have "unat (i div 8 + 8) = unat (i div 8) + unat (8 :: 64 word)"
    by (simp only: unat_add_lem)
  then show ?thesis by (simp add: unat_div8)
qed

lemma mod8_eq_0: "((i :: 64 word) mod 8 = 0) = (unat i mod 8 = 0)"
  by (metis unat_mod8 unat_eq_0)

lemma ninth_byte_index:
  "\<not> j + off < 64 \<Longrightarrow> 8 * k + off = (n :: nat) \<Longrightarrow> 8 * (k + 8) + (j + off - 64) = n + j"
  by simp

lemma ninth_byte_offsets:
  "\<not> j + off < 64 \<Longrightarrow> j < 64 \<Longrightarrow> off < (8 :: nat) \<Longrightarrow>
     j - (64 - off) = j + off - 64 \<and> 64 - off \<le> j \<and> j + off - 64 < 8"
  by arith

lemma bit_at_byte: "m < 8 \<Longrightarrow> bit_at a (8 * k + m) = bit (buf a ! k) m"
  by (simp add: bit_at_def)

lemma bitarray_get_u64_eq:
  assumes "unat i div 8 + (if unat i mod 8 = 0 then 8 else 9) \<le> length (buf a)"
  shows "\<exists>w. bitarray_get_u64 a i = Inr w \<and> (\<forall>j<64. bit w j = bit_at a (unat i + j))"
proof -
  let ?k = "unat i div 8" and ?o = "unat i mod 8"
  have split: "8 * ?k + ?o = unat i" by simp
  from assms have "unat (i div 8) + 8 \<le> length (buf a)"
    by (simp add: unat_div8 split: if_splits)
  from load_u64_eq[OF this] obtain low where
    low: "load_u64 a (i div 8) = Inr low" "\<And>j. j < 64 \<Longrightarrow> bit low j = bit_at a (8 * ?k + j)"
    by (auto simp add: unat_div8)
  show ?thesis
  proof (cases "?o = 0")
    case True
    with split have "unat i + j = 8 * ?k + j" for j by simp
    with True low show ?thesis
      by (simp add: bitarray_get_u64_def mod8_eq_0)
  next
    case False
    with assms have hb: "?k + 8 < length (buf a)" by simp
    let ?high = "buf a ! (?k + 8)"
    let ?w = "drop_bit ?o low OR push_bit (64 - ?o) (ucast ?high :: 64 word)"
    from False hb low(1) have r: "bitarray_get_u64 a i = Inr ?w"
      by (simp add: bitarray_get_u64_def mod8_eq_0 read_byte_def unat_plus8 unat_mod8)
    have "bit ?w j = bit_at a (unat i + j)" if j: "j < 64" for j
    proof (cases "j + ?o < 64")
      case True
      have "8 * ?k + (j + ?o) = unat i + j"
        using split by (simp only: add.assoc [symmetric] add.commute [of j])
      with True low(2)[of "j + ?o"] have "bit low (?o + j) = bit_at a (unat i + j)"
        by (simp add: add.commute)
      moreover from True have "\<not> 64 - ?o \<le> j" by simp
      ultimately show ?thesis using True j
        by (simp add: bit_simps)
    next
      case ge: False
      have o8: "?o < 8" by simp
      from ge have nl: "\<not> bit low (?o + j)"
        by (auto dest: bit_imp_le_length)
      from ninth_byte_offsets[OF ge j o8]
      have m: "j - (64 - ?o) = j + ?o - 64" "64 - ?o \<le> j" "j + ?o - 64 < 8"
        by simp_all
      have "(8 * (?k + 8) + (j + ?o - 64)) = unat i + j"
        using ge split by (rule ninth_byte_index)
      then have "bit_at a (unat i + j) = bit_at a (8 * (?k + 8) + (j + ?o - 64))"
        by (simp only:)
      also have "\<dots> = bit ?high (j + ?o - 64)"
        using m(3) by (rule bit_at_byte)
      finally have "bit_at a (unat i + j) = bit ?high (j + ?o - 64)" .
      with nl m j show ?thesis
        by (simp add: bit_simps)
    qed
    with r show ?thesis by simp
  qed
qed

subsection \<open>The wide write\<close>

text \<open>
  The write at \<open>i\<close> sets the bits \<open>[i, i + 64)\<close> to those of the value and keeps every
  other bit of the nine bytes.
\<close>

lemma bit_mask_lo: "bit (2 ^ off - 1 :: 'a :: len word) n \<longleftrightarrow> n < off \<and> n < LENGTH('a)"
proof -
  have "(2 ^ off - 1 :: 'a word) = mask off"
    by (simp add: mask_eq_exp_minus_1)
  then show ?thesis by (auto simp add: bit_simps)
qed

lemma bit_new_word:
  "bit ((old_word AND (push_bit off (1 :: 64 word) - 1)) OR push_bit off v) j
     \<longleftrightarrow> (if j < off then bit old_word j else j < 64 \<and> bit v (j - off))"
  by (auto simp add: bit_simps bit_mask_lo dest: bit_imp_le_length)

lemma bit_new_byte:
  assumes "off < 8" and "0 < off"
  shows "bit ((old_byte AND (ucast (NOT (push_bit off (1 :: 32 word) - 1)) :: 8 word))
          OR (ucast (drop_bit (64 - off) (v :: 64 word)) :: 8 word)) m
     \<longleftrightarrow> m < 8 \<and> (if m < off then bit v (64 - off + m) else bit old_byte m)"
  using assms by (auto simp add: bit_simps bit_mask_lo dest: bit_imp_le_length)

lemma write_byte_eq:
  assumes "unat k < length (buf a)"
  shows "\<exists>a'. write_byte a k v = Inr a' \<and> bit_sz a' = bit_sz a
           \<and> length (buf a') = length (buf a)
           \<and> (\<forall>n. bit_at a' n = (if n div 8 = unat k then bit v (n mod 8) else bit_at a n))"
  using assms by (simp add: write_byte_def bit_at_def)


lemma bitarray_set_u64_eq:
  assumes "unat i div 8 + (if unat i mod 8 = 0 then 8 else 9) \<le> length (buf a)"
  shows "\<exists>a'. bitarray_set_u64 a i v = Inr a' \<and> bit_sz a' = bit_sz a
           \<and> length (buf a') = length (buf a)
           \<and> (\<forall>n < 8 * length (buf a). bit_at a' n =
                 (if unat i \<le> n \<and> n < unat i + 64 then bit v (n - unat i) else bit_at a n))"
proof -
  define k where "k = unat i div 8"
  define off where "off = unat i mod 8"
  have split: "8 * k + off = unat i" by (simp add: k_def off_def)
  have off8: "off < 8" by (simp add: off_def)
  from assms have k8: "unat (i div 8) + 8 \<le> length (buf a)"
    by (simp add: unat_div8 split: if_splits)
  show ?thesis
  proof (cases "off = 0")
    case True
    from True have e2: "bitarray_set_u64 a i v = store_u64 a (i div 8) v"
      by (simp add: bitarray_set_u64_def mod8_eq_0 off_def)
    from store_u64_eq[OF k8, of v] obtain a' where
      a': "store_u64 a (i div 8) v = Inr a'" "bit_sz a' = bit_sz a" "length (buf a') = length (buf a)"
        "\<And>n. n < 8 * length (buf a) \<Longrightarrow> bit_at a' n =
                 (if 8 * k \<le> n \<and> n < 8 * k + 64 then bit v (n - 8 * k) else bit_at a n)"
      by (auto simp add: unat_div8 k_def)
    from True split have "8 * k = unat i" by simp
    with a' e2 show ?thesis by simp
  next
    case False
    with assms have hb: "k + 8 < length (buf a)" by (simp add: k_def off_def)
    from load_u64_eq[OF k8] obtain low where
      low: "load_u64 a (i div 8) = Inr low" "\<And>j. j < 64 \<Longrightarrow> bit low j = bit_at a (8 * k + j)"
      by (auto simp add: unat_div8 k_def)
    define old_byte where "old_byte = buf a ! (k + 8)"
    define nw where "nw = (low AND (push_bit off (1 :: 64 word) - 1)) OR push_bit off v"
    define nb where "nb = (old_byte AND (ucast (NOT (push_bit off (1 :: 32 word) - 1)) :: 8 word))
          OR (ucast (drop_bit (64 - off) v) :: 8 word)"
    from False hb low(1) have r: "bitarray_set_u64 a i v =
        bind_res (store_u64 a (i div 8) nw) (\<lambda>b1. write_byte b1 (i div 8 + 8) nb)"
      by (simp add: bitarray_set_u64_def mod8_eq_0 read_byte_def unat_plus8 unat_mod8
            Let_def nw_def nb_def old_byte_def k_def off_def)
    from store_u64_eq[OF k8, of nw] obtain b1 where
      b1: "store_u64 a (i div 8) nw = Inr b1" "bit_sz b1 = bit_sz a" "length (buf b1) = length (buf a)"
        "\<And>n. n < 8 * length (buf a) \<Longrightarrow> bit_at b1 n =
                 (if 8 * k \<le> n \<and> n < 8 * k + 64 then bit nw (n - 8 * k) else bit_at a n)"
      by (auto simp add: unat_div8 k_def)
    from hb b1(3) have "unat (i div 8 + 8) < length (buf b1)"
      by (simp add: unat_plus8 k_def)
    from write_byte_eq[OF this, of nb] obtain a' where
      a': "write_byte b1 (i div 8 + 8) nb = Inr a'" "bit_sz a' = bit_sz b1" "length (buf a') = length (buf b1)"
        "\<And>n. bit_at a' n = (if n div 8 = k + 8 then bit nb (n mod 8) else bit_at b1 n)"
      by (auto simp add: unat_plus8 k_def)
    have nwb: "bit nw j \<longleftrightarrow> (if j < off then bit low j else j < 64 \<and> bit v (j - off))" for j
      unfolding nw_def by (rule bit_new_word)
    from False off8 have nbb: "bit nb m \<longleftrightarrow> m < 8 \<and> (if m < off then bit v (64 - off + m) else bit old_byte m)" for m
      unfolding nb_def by (intro bit_new_byte) simp_all
    have "bit_at a' n = (if unat i \<le> n \<and> n < unat i + 64 then bit v (n - unat i) else bit_at a n)"
      if n: "n < 8 * length (buf a)" for n
    proof -
      from False have off0: "0 < off" by simp
      consider (lo) "n < 8 * k" | (w) "8 * k \<le> n" "n < 8 * k + 64"
        | (nine) "n div 8 = k + 8" | (hi) "8 * k + 72 \<le> n"
        by arith
      then show ?thesis
      proof cases
        case lo
        then have "n div 8 \<noteq> k + 8" "\<not> unat i \<le> n" using split by arith+
        with lo n show ?thesis by (simp add: a'(4) b1(4))
      next
        case w
        then have d: "n div 8 \<noteq> k + 8" by arith
        show ?thesis
        proof (cases "n - 8 * k < off")
          case True
          with w split have out: "\<not> unat i \<le> n" by arith
          from w have "8 * k + (n - 8 * k) = n" by simp
          with low(2)[of "n - 8 * k"] w True off8 have "bit low (n - 8 * k) = bit_at a n"
            by simp
          with d w n True out show ?thesis by (simp add: a'(4) b1(4) nwb)
        next
          case False
          with w split have inr: "unat i \<le> n" "n < unat i + 64" "n - 8 * k - off = n - unat i"
            by arith+
          from w have "n - 8 * k < 64" by arith
          with d w n False inr show ?thesis by (simp add: a'(4) b1(4) nwb)
        qed
      next
        case nine
        define m where "m = n mod 8"
        have m8: "m < 8" by (simp add: m_def)
        from nine have nm: "n = 8 * (k + 8) + m"
          unfolding m_def by (metis mult_div_mod_eq)
        have byte: "bit_at a' n = bit nb m"
          using nine by (simp add: a'(4) m_def)
        show ?thesis
        proof (cases "m < off")
          case True
          with nm split off8 have inr: "unat i \<le> n" "n < unat i + 64" "64 - off + m = n - unat i"
            by arith+
          with True m8 show ?thesis by (simp add: byte nbb)
        next
          case False
          with nm split have out: "\<not> n < unat i + 64" by arith
          from nm have "bit_at a n = bit_at a (8 * (k + 8) + m)" by simp
          also have "\<dots> = bit old_byte m"
            unfolding old_byte_def using m8 by (rule bit_at_byte)
          finally show ?thesis using False out m8 by (simp add: byte nbb)
        qed
      next
        case hi
        then have "n div 8 \<noteq> k + 8" "\<not> n < 8 * k + 64" "\<not> n < unat i + 64"
          using split off8 by arith+
        with hi n show ?thesis by (simp add: a'(4) b1(4))
      qed
    qed
    with r b1 a' show ?thesis by simp
  qed
qed

subsection \<open>The bulk loop\<close>

text \<open>
  One iteration swaps the two outer 64-bit windows, each reversed; the loop reverses
  the outer parts of the range and leaves fewer than 128 bits between the counters.
\<close>

lemma unat_sub_nat: "unat y \<le> unat x \<Longrightarrow> unat (x - y) = unat x - unat y"
  for x y :: "64 word"
  by (simp add: unat_sub word_le_nat_alt)

lemma unat_add_nat: "unat x + unat y \<le> unat z \<Longrightarrow> unat (x + y) = unat x + unat y"
  for x y z :: "64 word"
proof -
  assume "unat x + unat y \<le> unat z"
  moreover have "unat z < 2 ^ LENGTH(64)" by (rule unsigned_less)
  ultimately have "unat x + unat y < 2 ^ LENGTH(64)" by (rule le_less_trans)
  then show ?thesis by (simp only: unat_add_lem)
qed

lemma u64_in_bounds:
  fixes p len :: nat
  assumes "p + 64 \<le> 8 * len"
  shows "p div 8 + (if p mod 8 = 0 then 8 else 9) \<le> len"
proof -
  define q where "q = p div 8"
  define m where "m = p mod 8"
  have "p = 8 * q + m" by (simp add: q_def m_def)
  with assms show ?thesis
    unfolding q_def [symmetric] m_def [symmetric] by (simp split: if_splits)
qed

lemma reverse_bulk_body_eq:
  assumes lr: "unat left + 128 \<le> unat right" and rb: "unat right \<le> 8 * length (buf a)"
  shows "\<exists>a'. reverse_bulk_body a left right = Inr a' \<and> bit_sz a' = bit_sz a
           \<and> length (buf a') = length (buf a)
           \<and> (\<forall>n < 8 * length (buf a). bit_at a' n =
                 (if (unat left \<le> n \<and> n < unat left + 64) \<or> (unat right - 64 \<le> n \<and> n < unat right)
                  then bit_at a (unat left + unat right - 1 - n) else bit_at a n))"
proof -
  define L where "L = unat left"
  define R where "R = unat right"
  from lr have "unat (64 :: 64 word) \<le> unat right" by simp
  then have r64: "unat (right - 64) = R - 64"
    by (simp add: unat_sub_nat R_def)
  from lr rb have inL: "L div 8 + (if L mod 8 = 0 then 8 else 9) \<le> length (buf a)"
    unfolding L_def by (intro u64_in_bounds) simp
  from lr rb have inR: "(R - 64) div 8 + (if (R - 64) mod 8 = 0 then 8 else 9) \<le> length (buf a)"
    unfolding R_def by (intro u64_in_bounds) simp
  from bitarray_get_u64_eq[of left a] inL obtain lv where
    lv: "bitarray_get_u64 a left = Inr lv" "\<And>j. j < 64 \<Longrightarrow> bit lv j = bit_at a (L + j)"
    unfolding L_def by blast
  from bitarray_get_u64_eq[of "right - 64" a] inR obtain rv where
    rv: "bitarray_get_u64 a (right - 64) = Inr rv" "\<And>j. j < 64 \<Longrightarrow> bit rv j = bit_at a (R - 64 + j)"
    unfolding r64 by blast
  from bitarray_set_u64_eq[of "right - 64" a "word_reverse lv"] inR obtain a1 where
    a1: "bitarray_set_u64 a (right - 64) (word_reverse lv) = Inr a1" "bit_sz a1 = bit_sz a"
      "length (buf a1) = length (buf a)"
      "\<And>n. n < 8 * length (buf a) \<Longrightarrow> bit_at a1 n =
         (if R - 64 \<le> n \<and> n < R - 64 + 64 then bit (word_reverse lv) (n - (R - 64)) else bit_at a n)"
    unfolding r64 by blast
  from inL a1(3) have "L div 8 + (if L mod 8 = 0 then 8 else 9) \<le> length (buf a1)" by simp
  from bitarray_set_u64_eq[of left a1 "word_reverse rv"] this obtain a2 where
    a2: "bitarray_set_u64 a1 left (word_reverse rv) = Inr a2" "bit_sz a2 = bit_sz a1"
      "length (buf a2) = length (buf a1)"
      "\<And>n. n < 8 * length (buf a1) \<Longrightarrow> bit_at a2 n =
         (if L \<le> n \<and> n < L + 64 then bit (word_reverse rv) (n - L) else bit_at a1 n)"
    unfolding L_def by blast
  have r: "reverse_bulk_body a left right = Inr a2"
    by (simp add: reverse_bulk_body_def lv(1) rv(1) a1(1) a2(1))
  from lr have LR: "L + 128 \<le> R" by (simp add: L_def R_def)
  have "bit_at a2 n = (if (L \<le> n \<and> n < L + 64) \<or> (R - 64 \<le> n \<and> n < R)
                  then bit_at a (L + R - 1 - n) else bit_at a n)" if n: "n < 8 * length (buf a)" for n
  proof -
    consider (l) "L \<le> n" "n < L + 64" | (r) "R - 64 \<le> n" "n < R"
      | (o) "\<not> (L \<le> n \<and> n < L + 64)" "\<not> (R - 64 \<le> n \<and> n < R)"
      by blast
    then show ?thesis
    proof cases
      case l
      with LR have j: "64 - Suc (n - L) < 64" "R - 64 + (64 - Suc (n - L)) = L + R - 1 - n"
        "n - L < 64"
        by arith+
      from l n have "bit_at a2 n = bit (word_reverse rv) (n - L)"
        by (simp add: a2(4) a1(3))
      also from j have "\<dots> = bit rv (64 - Suc (n - L))"
        by (simp add: bit_word_reverse_iff)
      also from j have "\<dots> = bit_at a (L + R - 1 - n)"
        by (simp add: rv(2))
      finally show ?thesis using l by simp
    next
      case r
      with LR have j: "64 - Suc (n - (R - 64)) < 64" "L + (64 - Suc (n - (R - 64))) = L + R - 1 - n"
        "\<not> (L \<le> n \<and> n < L + 64)" "n - (R - 64) < 64" "n < R - 64 + 64"
        by arith+
      from j(3) n have "bit_at a2 n = bit_at a1 n"
        by (simp only: a2(4) a1(3) if_False)
      with r j(5) n have "bit_at a2 n = bit (word_reverse lv) (n - (R - 64))"
        by (simp add: a1(4))
      also from j have "\<dots> = bit lv (64 - Suc (n - (R - 64)))"
        by (simp add: bit_word_reverse_iff)
      also from j have "\<dots> = bit_at a (L + R - 1 - n)"
        by (simp add: lv(2))
      finally show ?thesis using r by simp
    next
      case o
      with LR have "\<not> (R - 64 \<le> n \<and> n < R - 64 + 64)" by arith
      with o n show ?thesis
        by (simp only: a2(4) a1(3) a1(4) if_False simp_thms)
    qed
  qed
  with r a1 a2 show ?thesis unfolding L_def R_def by simp
qed

lemma mirror_inner:
  fixes L R l r n :: nat
  assumes "L + 128 \<le> R" "l + r = L + R" "L + 64 \<le> l" "l \<le> r"
    and "(L + 64 \<le> n \<and> n < l) \<or> (r \<le> n \<and> n < R - 64)"
  shows "L + 64 \<le> L + R - 1 - n" "L + R - 1 - n < R - 64" "L + 64 + (R - 64) - 1 - n = L + R - 1 - n"
    "(L \<le> n \<and> n < l) \<or> (r \<le> n \<and> n < R)"
  using assms by auto

lemma mirror_outer:
  fixes L R l r n :: nat
  assumes "L + 128 \<le> R" "l + r = L + R" "L + 64 \<le> l" "l \<le> r"
    and "\<not> ((L + 64 \<le> n \<and> n < l) \<or> (r \<le> n \<and> n < R - 64))"
  shows "((L \<le> n \<and> n < L + 64) \<or> (R - 64 \<le> n \<and> n < R)) = ((L \<le> n \<and> n < l) \<or> (r \<le> n \<and> n < R))"
  using assms by auto
lemma reverse_bulk_eq:
  assumes "unat right = unat left + unat remaining" and "unat right \<le> 8 * length (buf a)"
  shows "\<exists>a' l r m. reverse_bulk a left right remaining = Inr (a', l, r, m)
      \<and> bit_sz a' = bit_sz a \<and> length (buf a') = length (buf a)
      \<and> unat left \<le> unat l \<and> unat r = unat l + unat m \<and> unat m < 128
      \<and> unat l + unat r = unat left + unat right
      \<and> (\<forall>n < 8 * length (buf a). bit_at a' n =
            (if (unat left \<le> n \<and> n < unat l) \<or> (unat r \<le> n \<and> n < unat right)
             then bit_at a (unat left + unat right - 1 - n) else bit_at a n))"
  using assms
proof (induction a left right remaining rule: reverse_bulk.induct)
  case (1 a left right remaining)
  show ?case
  proof (cases "128 \<le> remaining")
    case False
    then have "unat remaining < 128"
      by (simp add: word_le_nat_alt)
    moreover from False have "reverse_bulk a left right remaining = Inr (a, left, right, remaining)"
      by (subst reverse_bulk.simps) simp
    ultimately show ?thesis using "1.prems"(1) by auto
  next
    case True
    define L where "L = unat left"
    define R where "R = unat right"
    from True have rem: "128 \<le> unat remaining"
      by (simp add: word_le_nat_alt)
    with "1.prems" have LR: "L + 128 \<le> R" by (simp add: L_def R_def)
    from reverse_bulk_body_eq[of left right a] LR "1.prems"(2) obtain a1 where
      a1: "reverse_bulk_body a left right = Inr a1" "bit_sz a1 = bit_sz a"
        "length (buf a1) = length (buf a)"
        "\<And>n. n < 8 * length (buf a) \<Longrightarrow> bit_at a1 n =
                 (if (L \<le> n \<and> n < L + 64) \<or> (R - 64 \<le> n \<and> n < R)
                  then bit_at a (L + R - 1 - n) else bit_at a n)"
      unfolding L_def R_def by blast
    from LR have "unat left + unat (64 :: 64 word) \<le> unat right" by (simp add: L_def R_def)
    then have l64: "unat (left + 64) = L + 64"
      unfolding L_def by (simp add: unat_add_nat)
    from LR have "unat (64 :: 64 word) \<le> unat right" by (simp add: R_def)
    then have r64: "unat (right - 64) = R - 64"
      unfolding R_def by (simp add: unat_sub_nat)
    from rem have "unat (128 :: 64 word) \<le> unat remaining" by simp
    then have m128: "unat (remaining - 128) = unat remaining - 128"
      by (simp add: unat_sub_nat)
    from "1.prems"(1) rem have p1: "unat (right - 64) = unat (left + 64) + unat (remaining - 128)"
      unfolding l64 r64 m128 by (simp add: L_def R_def)
    from "1.prems"(2) LR have p2: "unat (right - 64) \<le> 8 * length (buf a1)"
      unfolding r64 a1(3) by (simp add: R_def)
    from "1.IH"[OF True a1(1) p1 p2] obtain a' l r m where
      res: "reverse_bulk a1 (left + 64) (right - 64) (remaining - 128) = Inr (a', l, r, m)"
        "bit_sz a' = bit_sz a1" "length (buf a') = length (buf a1)"
        "L + 64 \<le> unat l" "unat r = unat l + unat m" "unat m < 128"
        "unat l + unat r = L + 64 + (R - 64)"
      and bits: "\<And>n. n < 8 * length (buf a1) \<Longrightarrow> bit_at a' n =
            (if (L + 64 \<le> n \<and> n < unat l) \<or> (unat r \<le> n \<and> n < R - 64)
             then bit_at a1 (L + 64 + (R - 64) - 1 - n) else bit_at a1 n)"
      unfolding l64 r64 by blast
    from True a1(1) res(1) have r: "reverse_bulk a left right remaining = Inr (a', l, r, m)"
      by (subst reverse_bulk.simps) simp
    from res LR have sum: "unat l + unat r = L + R" "L \<le> unat l" "unat r \<le> R - 64" by arith+
    from "1.prems"(2) have Rb: "R \<le> 8 * length (buf a)" by (simp add: R_def)
    from res(5) have lr: "unat l \<le> unat r" by simp
    have "bit_at a' n = (if (L \<le> n \<and> n < unat l) \<or> (unat r \<le> n \<and> n < R)
             then bit_at a (L + R - 1 - n) else bit_at a n)" if n: "n < 8 * length (buf a)" for n
    proof (cases "(L + 64 \<le> n \<and> n < unat l) \<or> (unat r \<le> n \<and> n < R - 64)")
      case inner: True
      define n' where "n' = L + R - 1 - n"
      note mi = mirror_inner[OF LR sum(1) res(4) lr inner, folded n'_def]
      from mi(2) Rb have "n' < 8 * length (buf a)" by simp
      moreover from mi(1,2) have "\<not> ((L \<le> n' \<and> n' < L + 64) \<or> (R - 64 \<le> n' \<and> n' < R))"
        by simp
      ultimately have "bit_at a1 n' = bit_at a n'"
        by (simp only: a1(4) if_False)
      moreover from inner n have "bit_at a' n = bit_at a1 n'"
        by (simp only: bits a1(3) if_True mi(3))
      ultimately show ?thesis using mi(4) unfolding n'_def by (simp only: if_True)
    next
      case outer: False
      with n have e: "bit_at a' n = bit_at a1 n"
        by (simp only: bits a1(3) if_False)
      note mo = mirror_outer[OF LR sum(1) res(4) lr outer]
      from n show ?thesis
        by (simp only: e a1(4) mo)
    qed
    then have bits': "\<forall>n < 8 * length (buf a). bit_at a' n = (if (L \<le> n \<and> n < unat l) \<or> (unat r \<le> n \<and> n < R)
             then bit_at a (L + R - 1 - n) else bit_at a n)" by blast
    have sz: "bit_sz a' = bit_sz a" "length (buf a') = length (buf a)"
      by (simp_all only: res(2,3) a1(2,3))
    from r sz sum(2) res(5,6) sum(1) bits' show ?thesis
      unfolding L_def R_def by blast
  qed
qed

subsection \<open>The tail loop\<close>

text \<open>
  The loop from \<open>i\<close> to \<open>final_mid\<close> swaps each of these bits with its mirror.
\<close>

lemma tail_step_cond:
  fixes L R I Mid n :: nat
  assumes "L \<le> I" "I < Mid" "2 * Mid \<le> L + R"
  shows "((I \<le> n \<and> n < Mid) \<or> (L + R - Mid \<le> n \<and> n < L + R - I)) \<longleftrightarrow>
         (n = I \<or> n = L + R - 1 - I \<or> (I + 1 \<le> n \<and> n < Mid) \<or> (L + R - Mid \<le> n \<and> n < L + R - (I + 1)))"
  using assms by auto

lemma tail_step_mirror:
  fixes L R I Mid n :: nat
  assumes "L \<le> I" "I < Mid" "2 * Mid \<le> L + R"
    and "(I + 1 \<le> n \<and> n < Mid) \<or> (L + R - Mid \<le> n \<and> n < L + R - (I + 1))"
  shows "L + R - 1 - n \<noteq> I" "L + R - 1 - n \<noteq> L + R - 1 - I" "n \<noteq> I" "n \<noteq> L + R - 1 - I"
  using assms by auto

lemma tail_step_self:
  fixes L R I Mid :: nat
  assumes "L \<le> I" "I < Mid" "2 * Mid \<le> L + R"
  shows "L + R - 1 - (L + R - 1 - I) = I" "L + R - 1 - I \<noteq> I"
    "\<not> ((I + 1 \<le> I \<and> I < Mid) \<or> (L + R - Mid \<le> I \<and> I < L + R - (I + 1)))"
    "\<not> ((I + 1 \<le> L + R - 1 - I \<and> L + R - 1 - I < Mid) \<or> (L + R - Mid \<le> L + R - 1 - I \<and> L + R - 1 - I < L + R - (I + 1)))"
  using assms by auto

lemma tail_range:
  fixes l m n :: nat
  shows "(if (l \<le> n \<and> n < l + m div 2) \<or> (l + (l + m) - (l + m div 2) \<le> n \<and> n < l + (l + m) - l)
          then f (l + (l + m) - 1 - n) else f n)
       = (if l \<le> n \<and> n < l + m then f (l + (l + m) - 1 - n) else f n)"
proof -
  define h where "h = m div 2"
  have "m = 2 * h \<or> m = 2 * h + 1"
    unfolding h_def by arith
  then show ?thesis
  proof
    assume "m = 2 * h"
    then show ?thesis by auto
  next
    assume odd: "m = 2 * h + 1"
    show ?thesis
    proof (cases "n = l + h")
      case True
      then have "l + (l + (2 * h + 1)) - 1 - n = n" by simp
      with True show ?thesis unfolding odd by (simp add: add.commute)
    next
      case False
      then show ?thesis unfolding odd by auto
    qed
  qed
qed

lemma unat_inc: "unat i < unat m \<Longrightarrow> unat (i + 1) = unat i + 1"
  for i m :: "64 word"
  using unat_add_nat[of i 1 m] by simp

lemma reverse_tail_body_eq:
  assumes li: "unat left \<le> unat i" and im: "2 * unat i + 2 \<le> unat left + unat right"
    and rs: "unat right \<le> unat (bit_sz a)" and sb: "unat (bit_sz a) \<le> 8 * length (buf a)"
  shows "\<exists>a'. reverse_tail_body a left right i = Inr a' \<and> bit_sz a' = bit_sz a
           \<and> length (buf a') = length (buf a)
           \<and> (\<forall>n. bit_at a' n =
                 (if n = unat i then bit_at a (unat left + unat right - 1 - unat i)
                  else if n = unat left + unat right - 1 - unat i then bit_at a (unat i)
                  else bit_at a n))"
proof -
  define L where "L = unat left"
  define R where "R = unat right"
  define I where "I = unat i"
  define M where "M = L + R - 1 - I"
  from li im have ar: "L \<le> I" "I < M" "M < R" "1 \<le> R" "I - L \<le> R - 1" "R - 1 - (I - L) = M"
    unfolding L_def R_def I_def M_def by arith+
  from ar(4) have "unat (1 :: 64 word) \<le> unat right" by (simp add: R_def)
  then have r1: "unat (right - 1) = R - 1"
    by (simp add: unat_sub_nat R_def)
  from ar(1) have il: "unat (i - left) = I - L"
    by (simp add: unat_sub_nat L_def I_def)
  from ar(5) have "unat (i - left) \<le> unat (right - 1)" by (simp only: r1 il)
  then have "unat ((right - 1) - (i - left)) = unat (right - 1) - unat (i - left)"
    by (rule unat_sub_nat)
  with ar(6) have mi: "unat ((right - 1) - (i - left)) = M"
    by (simp only: r1 il)
  from ar rs sb have ib: "i < bit_sz a" "unat i div 8 < length (buf a)"
    unfolding I_def R_def by (simp_all add: word_less_nat_alt)
  from ar rs sb have mb: "(right - 1) - (i - left) < bit_sz a"
      "unat ((right - 1) - (i - left)) div 8 < length (buf a)"
    unfolding mi unfolding R_def by (simp_all add: word_less_nat_alt mi)
  from bitarray_set_eq[OF ib, of "bit_at a M"] obtain a1 where
    a1: "bitarray_set a i (bit_at a M) = Inr a1" "bit_sz a1 = bit_sz a"
      "length (buf a1) = length (buf a)"
      "\<And>n. bit_at a1 n = (if n = I then bit_at a M else bit_at a n)"
    unfolding I_def by blast
  from mb a1(2,3) have mb1: "(right - 1) - (i - left) < bit_sz a1"
      "unat ((right - 1) - (i - left)) div 8 < length (buf a1)"
    by simp_all
  from bitarray_set_eq[OF mb1, of "bit_at a I"] obtain a2 where
    a2: "bitarray_set a1 ((right - 1) - (i - left)) (bit_at a I) = Inr a2" "bit_sz a2 = bit_sz a1"
      "length (buf a2) = length (buf a1)"
      "\<And>n. bit_at a2 n = (if n = M then bit_at a I else bit_at a1 n)"
    unfolding mi by blast
  have r: "reverse_tail_body a left right i = Inr a2"
    by (simp add: reverse_tail_body_def bitarray_get_eq[OF ib] bitarray_get_eq[OF mb] Let_def
          mi a1(1) a2(1) I_def [symmetric])
  from ar(2) have "bit_at a2 n = (if n = I then bit_at a M else if n = M then bit_at a I else bit_at a n)" for n
    by (simp add: a2(4) a1(4))
  with r a1 a2 show ?thesis
    unfolding M_def L_def R_def I_def by simp
qed


lemma reverse_tail_eq:
  assumes "unat left \<le> unat i" and "unat i \<le> unat final_mid"
    and "2 * unat final_mid \<le> unat left + unat right"
    and "unat right \<le> unat (bit_sz a)" and "unat (bit_sz a) \<le> 8 * length (buf a)"
  shows "\<exists>a'. reverse_tail a left right final_mid i = Inr a' \<and> bit_sz a' = bit_sz a
           \<and> length (buf a') = length (buf a)
           \<and> (\<forall>n. bit_at a' n =
                 (if (unat i \<le> n \<and> n < unat final_mid)
                     \<or> (unat left + unat right - unat final_mid \<le> n
                         \<and> n < unat left + unat right - unat i)
                  then bit_at a (unat left + unat right - 1 - n) else bit_at a n))"
  using assms
proof (induction a left right final_mid i rule: reverse_tail.induct)
  case (1 a left right final_mid i)
  show ?case
  proof (cases "i < final_mid")
    case False
    with "1.prems"(2) have "unat i = unat final_mid"
      by (simp add: word_less_nat_alt)
    moreover from False have "reverse_tail a left right final_mid i = Inr a"
      by (subst reverse_tail.simps) simp
    ultimately show ?thesis by auto
  next
    case True
    define L where "L = unat left"
    define R where "R = unat right"
    define I where "I = unat i"
    define Mid where "Mid = unat final_mid"
    from True have iM: "I < Mid" by (simp add: word_less_nat_alt I_def Mid_def)
    from "1.prems"(1) have LI: "L \<le> I" by (simp add: L_def I_def)
    from "1.prems"(3) have MR: "2 * Mid \<le> L + R" by (simp add: L_def R_def Mid_def)
    from iM have inc: "unat (i + 1) = I + 1"
      unfolding I_def Mid_def by (rule unat_inc)
    from iM MR have "2 * I + 2 \<le> L + R" by simp
    from reverse_tail_body_eq[OF "1.prems"(1) this[unfolded I_def L_def R_def] "1.prems"(4,5)]
    obtain a1 where
      a1: "reverse_tail_body a left right i = Inr a1" "bit_sz a1 = bit_sz a"
        "length (buf a1) = length (buf a)"
        "\<And>n. bit_at a1 n = (if n = I then bit_at a (L + R - 1 - I)
                  else if n = L + R - 1 - I then bit_at a I else bit_at a n)"
      unfolding L_def R_def I_def by blast
    from LI iM have p1: "unat left \<le> unat (i + 1)" "unat (i + 1) \<le> unat final_mid"
      unfolding inc by (simp_all add: L_def Mid_def)
    from "1.prems"(4,5) have p2: "unat right \<le> unat (bit_sz a1)" "unat (bit_sz a1) \<le> 8 * length (buf a1)"
      by (simp_all only: a1(2,3))
    from "1.IH"[OF True a1(1) p1 "1.prems"(3) p2] obtain a' where
      res: "reverse_tail a1 left right final_mid (i + 1) = Inr a'" "bit_sz a' = bit_sz a1"
        "length (buf a') = length (buf a1)"
      and bits: "\<And>n. bit_at a' n =
                 (if (I + 1 \<le> n \<and> n < Mid) \<or> (L + R - Mid \<le> n \<and> n < L + R - (I + 1))
                  then bit_at a1 (L + R - 1 - n) else bit_at a1 n)"
      unfolding inc unfolding L_def R_def Mid_def by blast
    from True a1(1) res(1) have r: "reverse_tail a left right final_mid i = Inr a'"
      by (subst reverse_tail.simps) simp
    have "bit_at a' n = (if (I \<le> n \<and> n < Mid) \<or> (L + R - Mid \<le> n \<and> n < L + R - I)
                  then bit_at a (L + R - 1 - n) else bit_at a n)" for n
    proof -
      note c = tail_step_cond[OF LI iM MR, of n]
      note s = tail_step_self[OF LI iM MR]
      consider (i) "n = I" | (m) "n = L + R - 1 - I"
        | (inner) "(I + 1 \<le> n \<and> n < Mid) \<or> (L + R - Mid \<le> n \<and> n < L + R - (I + 1))"
        | (out) "n \<noteq> I" "n \<noteq> L + R - 1 - I"
            "\<not> ((I + 1 \<le> n \<and> n < Mid) \<or> (L + R - Mid \<le> n \<and> n < L + R - (I + 1)))"
        by blast
      then show ?thesis
      proof cases
        case i
        from s(3) have "bit_at a' I = bit_at a1 I" by (simp only: bits if_False)
        with i c show ?thesis by (simp add: a1(4))
      next
        case m
        from s(4) have "bit_at a' (L + R - 1 - I) = bit_at a1 (L + R - 1 - I)"
          by (simp only: bits if_False)
        with m c s(1,2) show ?thesis by (simp add: a1(4))
      next
        case inner
        note t = tail_step_mirror[OF LI iM MR inner]
        from inner have "bit_at a' n = bit_at a1 (L + R - 1 - n)"
          by (simp only: bits if_True)
        also from t(1,2) have "\<dots> = bit_at a (L + R - 1 - n)"
          by (simp only: a1(4) if_False)
        finally show ?thesis using c inner by simp
      next
        case out
        from out(3) have "bit_at a' n = bit_at a1 n" by (simp only: bits if_False)
        also from out(1,2) have "\<dots> = bit_at a n" by (simp only: a1(4) if_False)
        finally have e: "bit_at a' n = bit_at a n" .
        from c out have "\<not> ((I \<le> n \<and> n < Mid) \<or> (L + R - Mid \<le> n \<and> n < L + R - I))"
          by blast
        then show ?thesis by (simp only: e if_False)
      qed
    qed
    then have "\<forall>n. bit_at a' n = (if (I \<le> n \<and> n < Mid) \<or> (L + R - Mid \<le> n \<and> n < L + R - I)
                  then bit_at a (L + R - 1 - n) else bit_at a n)" by blast
    moreover have "bit_sz a' = bit_sz a" "length (buf a') = length (buf a)"
      by (simp_all only: res(2,3) a1(2,3))
    ultimately show ?thesis using r
      unfolding L_def R_def I_def Mid_def by blast
  qed
qed

subsection \<open>Reversal of a range\<close>

lemma compose_inside:
  fixes L R l r n :: nat
  assumes "L \<le> l" "l + r = L + R" "l \<le> r" "l \<le> n" "n < r"
  shows "l + r - 1 - n = L + R - 1 - n" "L + R - 1 - n < R"
    "\<not> ((L \<le> L + R - 1 - n \<and> L + R - 1 - n < l) \<or> (r \<le> L + R - 1 - n \<and> L + R - 1 - n < R))"
    "L \<le> n \<and> n < R"
  using assms by auto

lemma compose_outside:
  fixes L R l r n :: nat
  assumes "L \<le> l" "l + r = L + R" "l \<le> r" "\<not> (l \<le> n \<and> n < r)"
  shows "((L \<le> n \<and> n < l) \<or> (r \<le> n \<and> n < R)) = (L \<le> n \<and> n < R)"
  using assms by auto

lemma reverse_range_eq:
  assumes fit: "unat start + unat len \<le> unat (bit_sz a)"
    and sb: "unat (bit_sz a) \<le> 8 * length (buf a)"
  shows "\<exists>a'. bitarray_reverse_range a start len = Inr a' \<and> bit_sz a' = bit_sz a
           \<and> length (buf a') = length (buf a)
           \<and> (\<forall>n < 8 * length (buf a). bit_at a' n =
                 (if unat start \<le> n \<and> n < unat start + unat len
                  then bit_at a (unat start + (unat start + unat len) - 1 - n) else bit_at a n))"
proof -
  define L where "L = unat start"
  define R where "R = unat start + unat len"
  from fit have e: "unat (start + len) = R"
    unfolding R_def by (rule unat_add_nat)
  from fit sb have p: "unat (start + len) = unat start + unat len" "unat (start + len) \<le> 8 * length (buf a)"
    unfolding e by (simp_all add: R_def)
  from reverse_bulk_eq[OF p] obtain a1 l r m where
    b: "reverse_bulk a start (start + len) len = Inr (a1, l, r, m)"
      "bit_sz a1 = bit_sz a" "length (buf a1) = length (buf a)"
      "L \<le> unat l" "unat r = unat l + unat m" "unat m < 128" "unat l + unat r = L + R"
    and bbits: "\<And>n. n < 8 * length (buf a) \<Longrightarrow> bit_at a1 n =
            (if (L \<le> n \<and> n < unat l) \<or> (unat r \<le> n \<and> n < R)
             then bit_at a (L + R - 1 - n) else bit_at a n)"
    unfolding e unfolding L_def [symmetric] by blast
  have half: "unat (m div 2) = unat m div 2"
    by (simp add: unat_div)
  from b(5) have "unat l + unat (m div 2) \<le> unat r"
    unfolding half by simp
  then have mid: "unat (l + m div 2) = unat l + unat m div 2"
    unfolding half [symmetric] by (rule unat_add_nat)
  from b(4,7) fit have rR: "unat r \<le> R" "R \<le> unat (bit_sz a)"
    by (simp_all add: R_def)
  have t1: "unat l \<le> unat l" "unat l \<le> unat (l + m div 2)"
    "2 * unat (l + m div 2) \<le> unat l + unat r"
    unfolding mid b(5) by simp_all
  from rR sb have t2: "unat r \<le> unat (bit_sz a1)" "unat (bit_sz a1) \<le> 8 * length (buf a1)"
    unfolding b(2,3) by simp_all
  from reverse_tail_eq[OF t1 t2] obtain a2 where
    t: "reverse_tail a1 l r (l + m div 2) l = Inr a2" "bit_sz a2 = bit_sz a1"
      "length (buf a2) = length (buf a1)"
    and tbits: "\<And>n. bit_at a2 n =
        (if (unat l \<le> n \<and> n < unat l + unat m div 2)
            \<or> (unat l + (unat l + unat m) - (unat l + unat m div 2) \<le> n
                \<and> n < unat l + (unat l + unat m) - unat l)
         then bit_at a1 (unat l + (unat l + unat m) - 1 - n) else bit_at a1 n)"
    unfolding mid b(5) by blast
  have tb: "bit_at a2 n = (if unat l \<le> n \<and> n < unat r then bit_at a1 (unat l + unat r - 1 - n)
      else bit_at a1 n)" for n
    unfolding tbits tail_range b(5) ..
  have r: "bitarray_reverse_range a start len = Inr a2"
    by (simp add: bitarray_reverse_range_def b(1) t(1) Let_def)
  from b(5) have lr: "unat l \<le> unat r" by simp
  have "bit_at a2 n = (if L \<le> n \<and> n < R then bit_at a (L + R - 1 - n) else bit_at a n)"
    if n: "n < 8 * length (buf a)" for n
  proof (cases "unat l \<le> n \<and> n < unat r")
    case True
    then have c: "unat l \<le> n" "n < unat r" by simp_all
    note ci = compose_inside[OF b(4) b(7) lr c]
    from ci(2) rR sb have "L + R - 1 - n < 8 * length (buf a)" by simp
    with ci(3) have "bit_at a1 (L + R - 1 - n) = bit_at a (L + R - 1 - n)"
      by (simp only: bbits if_False)
    with True ci(4) show ?thesis
      by (simp only: tb ci(1) if_True simp_thms)
  next
    case False
    note co = compose_outside[OF b(4) b(7) lr False]
    from False n show ?thesis
      by (simp only: tb if_False bbits co simp_thms)
  qed
  then have "\<forall>n < 8 * length (buf a). bit_at a2 n =
      (if L \<le> n \<and> n < R then bit_at a (L + R - 1 - n) else bit_at a n)" by blast
  moreover have "bit_sz a2 = bit_sz a" "length (buf a2) = length (buf a)"
    by (simp_all only: t(2,3) b(2,3))
  ultimately show ?thesis using r
    unfolding L_def R_def by blast
qed

subsection \<open>Rotation\<close>

text \<open>
  The normalised amount is congruent to the signed amount modulo the length, and three
  reversals rotate by the size of the second block.
\<close>

lemma sint_nonneg: "\<not> r <s 0 \<Longrightarrow> sint r = int (unat r)" for r :: "64 word"
proof -
  assume "\<not> r <s 0"
  then have 0: "0 \<le> sint r" by (simp add: word_sless_alt)
  have "sint r < 2 ^ (LENGTH(64) - 1)" by (rule sint_lt)
  then have "sint r < 2 ^ 64" by simp
  with 0 have "take_bit 64 (sint r) = sint r"
    by (simp add: take_bit_int_eq_self)
  then have "uint r = sint r"
    using uint_sint[of r] by simp
  then show ?thesis by simp
qed

lemma sint_neg: "r <s 0 \<Longrightarrow> int (unat (- r)) = - sint r" for r :: "64 word"
proof -
  assume "r <s 0"
  then have 0: "sint r < 0" by (simp add: word_sless_alt)
  have "- (2 ^ (LENGTH(64) - 1)) \<le> sint r" by (rule sint_ge)
  then have lo: "- sint r < 2 ^ 64" by simp
  have "uint (- r) = (- uint r) mod 2 ^ 64"
    by (simp add: uint_word_ariths)
  also have "uint r = sint r mod 2 ^ 64"
    using uint_sint[of r] by (simp add: take_bit_eq_mod)
  also have "(- (sint r mod 2 ^ 64)) mod 2 ^ 64 = (- sint r) mod 2 ^ 64"
    by (simp add: mod_minus_eq)
  also from 0 lo have "\<dots> = - sint r" by simp
  finally show ?thesis by simp
qed

lemma rot_index:
  fixes A N k :: nat and s :: int
  assumes "A \<le> N" and "(int A - s) mod int N = 0" and "k < N"
  shows "nat ((int k - s) mod int N) = (if k < A then k + N - A else k - A)"
proof -
  have "(int k - s) mod int N = ((int k - int A) + (int A - s)) mod int N"
    by simp
  also have "\<dots> = ((int k - int A) mod int N + (int A - s) mod int N) mod int N"
    by (simp only: mod_add_eq)
  also have "\<dots> = (int k - int A) mod int N"
    by (simp add: assms(2))
  finally have e: "(int k - s) mod int N = (int k - int A) mod int N" .
  show ?thesis
  proof (cases "k < A")
    case True
    with assms have "(int k - int A) mod int N = (int k - int A + int N) mod int N"
      by simp
    also from True assms have "\<dots> = int k - int A + int N"
      by (intro mod_pos_pos_trivial) simp_all
    finally show ?thesis using True assms by (simp add: e)
  next
    case False
    with assms have "(int k - int A) mod int N = int k - int A"
      by (intro mod_pos_pos_trivial) simp_all
    with False show ?thesis by (simp add: e)
  qed
qed

lemma neg_amount_cong:
  fixes N :: nat and s :: int
  assumes "0 < N"
  shows "(int (N - nat ((- s) mod int N)) - s) mod int N = 0"
proof -
  from assms have "(- s) mod int N < int N" "0 \<le> (- s) mod int N" by simp_all
  then have "int (N - nat ((- s) mod int N)) = int N - (- s) mod int N"
    by simp
  then have "(int (N - nat ((- s) mod int N)) - s) mod int N
      = (int N + ((- s) - (- s) mod int N)) mod int N"
    by (simp add: algebra_simps)
  also have "\<dots> = ((- s) - (- s) mod int N) mod int N"
    by simp
  also have "\<dots> = 0"
    by (simp add: minus_mod_eq_mult_div)
  finally show ?thesis .
qed

lemma three_reversals:
  fixes f f1 f2 f3 :: "nat \<Rightarrow> bool" and P S A N B n :: nat
  assumes SA: "S + A = N" and PB: "P + N \<le> B"
    and r1: "\<And>n. n < B \<Longrightarrow> f1 n = (if P \<le> n \<and> n < P + S then f (P + (P + S) - 1 - n) else f n)"
    and r2: "\<And>n. n < B \<Longrightarrow> f2 n =
               (if P + S \<le> n \<and> n < P + S + A then f1 (P + S + (P + S + A) - 1 - n) else f1 n)"
    and r3: "\<And>n. n < B \<Longrightarrow> f3 n = (if P \<le> n \<and> n < P + N then f2 (P + (P + N) - 1 - n) else f2 n)"
    and n: "n < B"
  shows "f3 n = (if P \<le> n \<and> n < P + N
                 then f (P + (if n - P < A then n - P + N - A else n - P - A)) else f n)"
proof (cases "P \<le> n \<and> n < P + N")
  case False
  with SA have "\<not> (P + S \<le> n \<and> n < P + S + A)" "\<not> (P \<le> n \<and> n < P + S)"
    by auto
  with False n show ?thesis
    by (simp only: r3 r2 r1 if_False simp_thms)
next
  case True
  define k where "k = n - P"
  define n2 where "n2 = P + (P + N) - 1 - n"
  from True PB have n2: "n2 = P + N - 1 - k" "n2 < B" "k < N" "n = P + k"
    unfolding n2_def k_def by auto
  from True n have e3: "f3 n = f2 n2"
    unfolding n2_def by (simp only: r3 if_True simp_thms)
  show ?thesis
  proof (cases "k < A")
    case kA: True
    define n1 where "n1 = P + S + (P + S + A) - 1 - n2"
    from kA n2 SA PB have n1: "n1 = P + S + k" "n1 < B" "P + S \<le> n2 \<and> n2 < P + S + A"
      "\<not> (P \<le> n1 \<and> n1 < P + S)" "k + N - A = S + k"
      unfolding n1_def by auto
    from n1(3) n2(2) have "f2 n2 = f1 n1"
      unfolding n1_def by (simp only: r2 if_True simp_thms)
    also from n1(4,2) have "\<dots> = f n1"
      by (simp only: r1 if_False simp_thms)
    finally have "f3 n = f (P + (k + N - A))"
      using e3 n1(1,5) by (simp add: add.assoc)
    with True kA show ?thesis
      unfolding k_def by simp
  next
    case kA: False
    from kA n2 SA have m: "\<not> (P + S \<le> n2 \<and> n2 < P + S + A)" "P \<le> n2 \<and> n2 < P + S"
      "P + (P + S) - 1 - n2 = P + (k - A)"
      by auto
    from m(1) n2(2) have "f2 n2 = f1 n2"
      by (simp only: r2 if_False simp_thms)
    also from m(2) n2(2) have "\<dots> = f (P + (P + S) - 1 - n2)"
      by (simp only: r1 if_True simp_thms)
    finally have "f3 n = f (P + (k - A))"
      using e3 m(3) by simp
    with True kA show ?thesis
      unfolding k_def by simp
  qed
qed


lemma rotate_amount_props:
  assumes "len \<noteq> 0"
  shows "unat (rotate_amount len r) \<le> unat len"
    and "(int (unat (rotate_amount len r)) - sint r) mod int (unat len) = 0"
proof -
  define N where "N = unat len"
  from assms have N: "0 < N" by (simp add: N_def unat_gt_0)
  have "unat (rotate_amount len r) \<le> N \<and> (int (unat (rotate_amount len r)) - sint r) mod int N = 0"
  proof (cases "r <s 0")
    case False
    then have a: "unat (rotate_amount len r) = unat r mod N"
      by (simp add: rotate_amount_def unat_mod N_def)
    from N have "unat r mod N \<le> N" by simp
    moreover have "(int (unat r mod N) - int (unat r)) mod int N = 0"
      by (simp add: of_nat_mod mod_diff_left_eq)
    ultimately show ?thesis
      using False by (simp add: a sint_nonneg)
  next
    case True
    define B where "B = unat (- r) mod N"
    have b: "unat ((- r) mod len) = B"
      by (simp add: unat_mod N_def B_def)
    from N have "B \<le> N" by (simp add: B_def)
    then have "unat ((- r) mod len) \<le> unat len" by (simp only: b N_def)
    then have "unat (len - (- r) mod len) = N - B"
      unfolding b [symmetric] N_def by (rule unat_sub_nat)
    with True have a: "unat (rotate_amount len r) = N - B"
      by (simp add: rotate_amount_def)
    from sint_neg[OF True] have "uint (- r) = - sint r" by simp
    then have "int B = (- sint r) mod int N"
      unfolding B_def by (simp add: of_nat_mod)
    then have "B = nat ((- sint r) mod int N)" by simp
    with neg_amount_cong[OF N, of "sint r"] show ?thesis
      by (simp add: a)
  qed
  then show "unat (rotate_amount len r) \<le> unat len"
    and "(int (unat (rotate_amount len r)) - sint r) mod int (unat len) = 0"
    by (simp_all add: N_def)
qed


lemma bitarray_rotate_eq:
  assumes fit: "unat off + unat len \<le> unat (bit_sz a)"
    and sb: "unat (bit_sz a) \<le> 8 * length (buf a)"
  shows "\<exists>a'. bitarray_rotate a off len r = Inr a' \<and> bit_sz a' = bit_sz a
           \<and> length (buf a') = length (buf a)
           \<and> (\<forall>n < 8 * length (buf a). bit_at a' n =
                 (if unat off \<le> n \<and> n < unat off + unat len
                  then bit_at a (unat off + nat ((int (n - unat off) - sint r) mod int (unat len)))
                  else bit_at a n))"
proof (cases "len = 0")
  case True
  then show ?thesis by (auto simp add: bitarray_rotate_def)
next
  case False
  define P where "P = unat off"
  define N where "N = unat len"
  define A where "A = unat (rotate_amount len r)"
  define S where "S = N - A"
  note ap = rotate_amount_props[OF False, of r, folded A_def N_def]
  have idx: "nat ((int (n - P) - sint r) mod int N) = (if n - P < A then n - P + N - A else n - P - A)"
    if "P \<le> n \<and> n < P + N" for n
    using that by (intro rot_index ap) auto
  show ?thesis
  proof (cases "rotate_amount len r = 0")
    case True
    then have "A = 0" by (simp add: A_def)
    with idx have "nat ((int (n - P) - sint r) mod int N) = n - P" if "P \<le> n \<and> n < P + N" for n
      using that by simp
    then have "bit_at a (P + nat ((int (n - P) - sint r) mod int N)) = bit_at a n"
      if "P \<le> n \<and> n < P + N" for n
      using that by simp
    moreover from True False have "bitarray_rotate a off len r = Inr a"
      by (simp add: bitarray_rotate_def)
    ultimately show ?thesis
      unfolding P_def N_def by auto
  next
    case nz: False
    from ap(1) have SA: "S + A = N" by (simp add: S_def)
    from ap(1) have "unat (rotate_amount len r) \<le> unat len" by (simp add: A_def N_def)
    then have split: "unat (len - rotate_amount len r) = S"
      unfolding S_def N_def A_def by (rule unat_sub_nat)
    from fit SA have f1: "unat off + unat (len - rotate_amount len r) \<le> unat (bit_sz a)"
      unfolding split by (simp add: N_def)
    then have os: "unat (off + (len - rotate_amount len r)) = P + S"
      unfolding P_def split [symmetric] by (rule unat_add_nat)
    from reverse_range_eq[OF f1 sb] obtain a1 where
      a1: "bitarray_reverse_range a off (len - rotate_amount len r) = Inr a1"
        "bit_sz a1 = bit_sz a" "length (buf a1) = length (buf a)"
      and b1: "\<And>n. n < 8 * length (buf a) \<Longrightarrow> bit_at a1 n =
          (if P \<le> n \<and> n < P + S then bit_at a (P + (P + S) - 1 - n) else bit_at a n)"
      unfolding split unfolding P_def by blast
    from fit SA have f2: "unat (off + (len - rotate_amount len r)) + unat (rotate_amount len r)
        \<le> unat (bit_sz a1)"
      unfolding os a1(2) by (simp add: P_def N_def A_def)
    from sb have sb1: "unat (bit_sz a1) \<le> 8 * length (buf a1)"
      by (simp only: a1(2,3))
    from reverse_range_eq[OF f2 sb1] obtain a2 where
      a2: "bitarray_reverse_range a1 (off + (len - rotate_amount len r)) (rotate_amount len r) = Inr a2"
        "bit_sz a2 = bit_sz a1" "length (buf a2) = length (buf a1)"
      and b2: "\<And>n. n < 8 * length (buf a) \<Longrightarrow> bit_at a2 n =
          (if P + S \<le> n \<and> n < P + S + A then bit_at a1 (P + S + (P + S + A) - 1 - n)
           else bit_at a1 n)"
      unfolding os a1(3) unfolding A_def by blast
    from fit have f3: "unat off + unat len \<le> unat (bit_sz a2)"
      by (simp only: a2(2) a1(2))
    from sb have sb2: "unat (bit_sz a2) \<le> 8 * length (buf a2)"
      by (simp only: a2(2,3) a1(2,3))
    from reverse_range_eq[OF f3 sb2] obtain a3 where
      a3: "bitarray_reverse_range a2 off len = Inr a3"
        "bit_sz a3 = bit_sz a2" "length (buf a3) = length (buf a2)"
      and b3: "\<And>n. n < 8 * length (buf a) \<Longrightarrow> bit_at a3 n =
          (if P \<le> n \<and> n < P + N then bit_at a2 (P + (P + N) - 1 - n) else bit_at a2 n)"
      unfolding a2(3) a1(3) unfolding P_def N_def by blast
    from False nz have r: "bitarray_rotate a off len r = Inr a3"
      by (simp add: bitarray_rotate_def Let_def a1(1) a2(1) a3(1))
    from fit sb have PB: "P + N \<le> 8 * length (buf a)"
      by (simp add: P_def N_def)
    have "bit_at a3 n = (if P \<le> n \<and> n < P + N
            then bit_at a (P + nat ((int (n - P) - sint r) mod int N)) else bit_at a n)"
      if n: "n < 8 * length (buf a)" for n
    proof (cases "P \<le> n \<and> n < P + N")
      case True
      with three_reversals[of S A N P "8 * length (buf a)" "bit_at a1" "bit_at a" "bit_at a2" "bit_at a3" n,
          OF SA PB b1 b2 b3 n]
      show ?thesis by (simp only: idx[OF True] if_True)
    next
      case False
      with three_reversals[of S A N P "8 * length (buf a)" "bit_at a1" "bit_at a" "bit_at a2" "bit_at a3" n,
          OF SA PB b1 b2 b3 n]
      show ?thesis by (simp only: if_False)
    qed
    then have "\<forall>n < 8 * length (buf a). bit_at a3 n = (if P \<le> n \<and> n < P + N
            then bit_at a (P + nat ((int (n - P) - sint r) mod int N)) else bit_at a n)"
      by blast
    moreover have "bit_sz a3 = bit_sz a" "length (buf a3) = length (buf a)"
      by (simp_all only: a3(2,3) a2(2,3) a1(2,3))
    ultimately show ?thesis using r
      unfolding P_def N_def by blast
  qed
qed

subsection \<open>Short ranges, word indices, equality of buffers\<close>

lemma reverse_range_short:
  assumes "len = 0 \<or> len = 1"
  shows "bitarray_reverse_range a start len = Inr a"
proof -
  from assms have "\<not> 128 \<le> len" by (auto simp add: word_le_nat_alt)
  then have b: "reverse_bulk a start (start + len) len = Inr (a, start, start + len, len)"
    by (subst reverse_bulk.simps) simp
  from assms have "len div 2 = 0" by auto
  then have "reverse_tail a start (start + len) (start + len div 2) start = Inr a"
    by (subst reverse_tail.simps) simp
  with b show ?thesis
    by (simp add: bitarray_reverse_range_def)
qed


lemma unat_index_add:
  fixes start k len bound :: "64 word"
  assumes "k < len" and "unat start + unat len \<le> unat bound"
  shows "unat (start + k) = unat start + unat k" and "start + k < bound"
proof -
  from assms have b: "unat start + unat k < unat bound"
    by (simp add: word_less_nat_alt)
  then have "unat start + unat k \<le> unat bound" by simp
  then show "unat (start + k) = unat start + unat k" by (rule unat_add_nat)
  with b show "start + k < bound" by (simp add: word_less_nat_alt)
qed

lemma unat_mirror_index:
  fixes start k len bound :: "64 word"
  assumes "k < len" and "unat start + unat len \<le> unat bound"
  shows "unat (start + len - 1 - k) = unat start + unat len - 1 - unat k"
    and "start + len - 1 - k < bound"
proof -
  from assms(1) have kl: "unat k < unat len" by (simp add: word_less_nat_alt)
  then have k1: "unat (k + 1) = unat k + 1" by (rule unat_inc)
  with kl have "unat (k + 1) \<le> unat len" by simp
  then have "unat (len - (k + 1)) = unat len - unat (k + 1)" by (rule unat_sub_nat)
  with k1 have d: "unat (len - (k + 1)) = unat len - 1 - unat k" by simp
  with assms(2) have "unat start + unat (len - (k + 1)) \<le> unat bound" by simp
  then have "unat (start + (len - (k + 1))) = unat start + unat (len - (k + 1))"
    by (rule unat_add_nat)
  moreover have "start + (len - (k + 1)) = start + len - 1 - k" by simp
  ultimately have e: "unat (start + len - 1 - k) = unat start + (unat len - 1 - unat k)"
    using d by simp
  with kl show "unat (start + len - 1 - k) = unat start + unat len - 1 - unat k" by simp
  from e kl assms(2) show "start + len - 1 - k < bound" by (simp add: word_less_nat_alt)
qed

lemma bitarray_get_bit_at:
  assumes "wf_bitarray a" and "i < bit_sz a"
  shows "bitarray_get a i = Inr (bit_at a (unat i))" and "unat i < 8 * length (buf a)"
proof -
  from assms have "unat i < unat (bit_sz a)" by (simp add: word_less_nat_alt)
  with wf_bits_in_buffer[OF assms(1)] show "unat i < 8 * length (buf a)" by simp
  then have "unat i div 8 < length (buf a)" by simp
  with assms(2) show "bitarray_get a i = Inr (bit_at a (unat i))" by (rule bitarray_get_eq)
qed

lemma u64_bits_in_buffer:
  fixes p len :: nat
  assumes "p div 8 + (if p mod 8 = 0 then 8 else 9) \<le> len"
  shows "p + 64 \<le> 8 * len"
proof -
  define q where "q = p div 8"
  define m where "m = p mod 8"
  have "p = 8 * q + m" "m < 8" by (simp_all add: q_def m_def)
  with assms show ?thesis
    unfolding q_def [symmetric] m_def [symmetric] by (simp split: if_splits)
qed

lemma rot_index_less:
  fixes N :: nat
  assumes "0 < N"
  shows "nat (x mod int N) < N"
proof -
  from assms have "0 \<le> x mod int N" "x mod int N < int N" by simp_all
  then show ?thesis by linarith
qed

lemma unat_of_nat_index:
  fixes len :: "64 word"
  assumes "K < unat len"
  shows "unat (word_of_nat K :: 64 word) = K" and "(word_of_nat K :: 64 word) < len"
proof -
  from assms have "K \<le> unat len" by simp
  then show e: "unat (word_of_nat K :: 64 word) = K" by (rule le_unat_uoi)
  with assms show "(word_of_nat K :: 64 word) < len" by (simp add: word_less_nat_alt)
qed

lemma buf_eqI:
  assumes len: "length (buf a') = length (buf a)"
    and bits: "\<And>n. n < 8 * length (buf a) \<Longrightarrow> bit_at a' n = bit_at a n"
  shows "buf a' = buf a"
proof (rule nth_equalityI)
  show "length (buf a') = length (buf a)" by (rule len)
next
  fix j assume "j < length (buf a')"
  with len have j: "j < length (buf a)" by simp
  show "buf a' ! j = buf a ! j"
  proof (rule bit_word_eqI)
    fix m assume "m < LENGTH(8)"
    then have m: "m < 8" by simp
    with j have "8 * j + m < 8 * length (buf a)" by simp
    then have "bit_at a' (8 * j + m) = bit_at a (8 * j + m)" by (rule bits)
    with m show "bit (buf a' ! j) m = bit (buf a ! j) m"
      by (simp only: bit_at_byte)
  qed
qed

lemma sint_uminus:
  fixes k :: "64 word"
  assumes "sint k \<noteq> - (2 ^ 63)"
  shows "sint (- k) = - sint k"
proof -
  have "- (2 ^ (LENGTH(64) - 1)) \<le> sint k" "sint k < 2 ^ (LENGTH(64) - 1)"
    by (rule sint_ge, rule sint_lt)
  with assms have "- (2 ^ 63) \<le> - sint k" "- sint k < 2 ^ 63" by simp_all
  then have "signed_take_bit 63 (- sint k) = - sint k"
    by (simp add: signed_take_bit_int_eq_self)
  then show ?thesis
    by (simp add: sint_word_ariths)
qed

lemma rot_there_and_back:
  fixes N j :: nat and s :: int
  assumes "j < N"
  shows "nat ((int (nat ((int j - s) mod int N)) - (- s)) mod int N) = j"
proof -
  from assms have N: "0 < int N" by simp
  then have "0 \<le> (int j - s) mod int N" by simp
  then have "int (nat ((int j - s) mod int N)) = (int j - s) mod int N" by simp
  then have "(int (nat ((int j - s) mod int N)) - (- s)) mod int N
      = ((int j - s) mod int N + s) mod int N" by simp
  also have "\<dots> = (int j - s + s) mod int N"
    by (simp only: mod_add_left_eq)
  also from assms have "\<dots> = int j" by simp
  finally show ?thesis by simp
qed

section \<open>The specification's concrete scenarios\<close>

text \<open>
  The eight bits \<open>10110010\<close> (index 0 first) are the byte 77; rotated right by 3
  they are \<open>01010110\<close>, the byte 106.
\<close>

lemma rotate_scenario_8_bits:
  "bitarray_rotate \<lparr>bit_sz = 8, buf = [77]\<rparr> 0 8 3 = Inr \<lparr>bit_sz = 8, buf = [106]\<rparr>"
  by code_simp

text \<open>
  A 200-bit array of ones with bit 150 cleared (byte 18 is 191): rotating the 180 bits
  from bit 10 right by \<open>-47\<close> runs the bulk loop in the third reversal and moves the
  cleared bit to index 103 (byte 12 becomes 127).
\<close>

lemma rotate_scenario_200_bits:
  "bitarray_rotate
     \<lparr>bit_sz = 200,
        buf = [255, 255, 255, 255, 255, 255, 255, 255, 255, 255, 255, 255, 255,
               255, 255, 255, 255, 255, 191, 255, 255, 255, 255, 255, 255]\<rparr>
     10 180 (- 47)
   = Inr \<lparr>bit_sz = 200,
            buf = [255, 255, 255, 255, 255, 255, 255, 255, 255, 255, 255, 255, 127,
                   255, 255, 255, 255, 255, 255, 255, 255, 255, 255, 255, 255]\<rparr>"
  by code_simp

subsection \<open>The range of the normalised amount\<close>

text \<open>
  For a non-negative amount the normalised amount is below the length; for a negative
  amount it is above 0 and at most the length (the length itself for the negative
  multiples of the length); an amount of 0 ends the rotation at once.
\<close>

lemma rotate_amount_nonneg_range:
  assumes "bit_length \<noteq> 0" and "\<not> r <s 0"
  shows "rotate_amount bit_length r < bit_length"
  using assms by (simp add: rotate_amount_def word_mod_less_divisor word_neq_0_conv)

lemma rotate_amount_neg_range:
  assumes "bit_length \<noteq> 0" and "r <s 0"
  shows "0 < rotate_amount bit_length r \<and> rotate_amount bit_length r \<le> bit_length"
proof -
  from assms(1) have "(- r) mod bit_length < bit_length"
    by (simp add: word_mod_less_divisor word_neq_0_conv)
  then have "unat ((- r) mod bit_length) < unat bit_length"
    by (simp add: word_less_nat_alt)
  moreover from this have "unat (bit_length - (- r) mod bit_length)
      = unat bit_length - unat ((- r) mod bit_length)"
    by (intro unat_sub_nat) simp
  ultimately show ?thesis
    using assms(2) by (simp add: rotate_amount_def word_less_nat_alt word_le_nat_alt)
qed

lemma rotate_amount_zero_returns:
  "rotate_amount bit_length r = 0 \<Longrightarrow> bitarray_rotate a bit_offset bit_length r = Inr a"
  by (simp add: bitarray_rotate_def)

section \<open>Properties of the specification\<close>

text \<open>
  Throughout, \<open>bit_at a n\<close> is bit \<open>n\<close> of the buffer, the value \<^verbatim>\<open>bitarray_get\<close>
  returns for every index below \<open>bit_sz a\<close> (lemma \<open>bitarray_get_bit_at\<close>). A bit
  array is well formed (\<open>wf_bitarray\<close>) when its buffer has the \<open>ceil(bit_sz/8)\<close>
  bytes \<^verbatim>\<open>bitarray_new\<close> allocates.
\<close>

text \<open>
  C1: on a well-formed array and for a range inside it, \<^verbatim>\<open>bitarray_rotate\<close> succeeds
  and rotates the range right by \<open>r\<close> (left for negative \<open>r\<close>): for every
  \<open>i < bit_length\<close>, the bit at \<open>bit_offset + i\<close> afterwards is the bit that was at
  \<open>bit_offset + ((i - r) mod bit_length)\<close> before, \<open>r\<close> read as a signed integer and
  \<open>mod\<close> the mathematical one.
\<close>

theorem bitarray_rotate_right_rotation:
  assumes wf: "wf_bitarray a" and fit: "unat bit_offset + unat bit_length \<le> unat (bit_sz a)"
  shows "\<exists>a'. bitarray_rotate a bit_offset bit_length r = Inr a'
           \<and> (\<forall>i. i < bit_length \<longrightarrow>
                 (\<exists>b. bitarray_get a' (bit_offset + i) = Inr b
                      \<and> bitarray_get a
                            (bit_offset
                             + word_of_nat (nat ((int (unat i) - sint r) mod int (unat bit_length))))
                          = Inr b))"
proof -
  from bitarray_rotate_eq[OF fit wf_bits_in_buffer[OF wf], of r] obtain a' where
    a': "bitarray_rotate a bit_offset bit_length r = Inr a'" "bit_sz a' = bit_sz a"
      "length (buf a') = length (buf a)"
    and bits: "\<And>n. n < 8 * length (buf a) \<Longrightarrow> bit_at a' n =
                 (if unat bit_offset \<le> n \<and> n < unat bit_offset + unat bit_length
                  then bit_at a (unat bit_offset
                         + nat ((int (n - unat bit_offset) - sint r) mod int (unat bit_length)))
                  else bit_at a n)"
    by blast
  from wf a'(2,3) have wf': "wf_bitarray a'" by (simp add: wf_bitarray_def)
  have "\<exists>b. bitarray_get a' (bit_offset + i) = Inr b
          \<and> bitarray_get a (bit_offset
                 + word_of_nat (nat ((int (unat i) - sint r) mod int (unat bit_length)))) = Inr b"
    if i: "i < bit_length" for i
  proof -
    define K where "K = nat ((int (unat i) - sint r) mod int (unat bit_length))"
    from i have il: "unat i < unat bit_length" by (simp add: word_less_nat_alt)
    then have "0 < unat bit_length" by simp
    then have "K < unat bit_length" unfolding K_def by (rule rot_index_less)
    note k = unat_of_nat_index[OF this]
    note src = unat_index_add[OF k(2) fit]
    note dst = unat_index_add[OF i fit]
    from dst(2) have "bit_offset + i < bit_sz a'" by (simp only: a'(2))
    note g' = bitarray_get_bit_at[OF wf' this]
    note g = bitarray_get_bit_at[OF wf src(2)]
    from src(1) k(1) have e: "unat (bit_offset + word_of_nat K) = unat bit_offset + K"
      by simp
    from il have "unat bit_offset + unat i - unat bit_offset = unat i" by simp
    with g'(2) il have "bit_at a' (unat (bit_offset + i)) = bit_at a (unat bit_offset + K)"
      unfolding dst(1) a'(3) K_def by (simp add: bits)
    with g'(1) have B: "bitarray_get a' (bit_offset + i) = Inr (bit_at a (unat bit_offset + K))"
      by simp
    from g(1) e have A: "bitarray_get a (bit_offset + word_of_nat K) = Inr (bit_at a (unat bit_offset + K))"
      by simp
    from A B show ?thesis
      unfolding K_def by blast
  qed
  with a'(1) show ?thesis by blast
qed

text \<open>
  An instance with bulk iterations: a left rotation by 47 of 180 bits from bit 10 of a
  200-bit array, read at \<open>i = 5\<close>.
\<close>

theorem bitarray_rotate_right_rotation_witness:
  "wf_bitarray \<lparr>bit_sz = 200, buf = replicate 25 3\<rparr>
   \<and> unat (10 :: 64 word) + unat (180 :: 64 word) \<le> unat (bit_sz \<lparr>bit_sz = 200, buf = replicate 25 3\<rparr>)
   \<and> (\<exists>a'. bitarray_rotate \<lparr>bit_sz = 200, buf = replicate 25 3\<rparr> 10 180 (- 47) = Inr a'
         \<and> (\<exists>b. bitarray_get a' (10 + 5) = Inr b
               \<and> bitarray_get \<lparr>bit_sz = 200, buf = replicate 25 3\<rparr>
                     (10 + word_of_nat (nat ((int (unat (5 :: 64 word)) - sint (- 47 :: 64 word))
                                         mod int (unat (180 :: 64 word))))) = Inr b))"
proof -
  let ?A = "\<lparr>bit_sz = 200, buf = replicate 25 3\<rparr>"
  have h1: "wf_bitarray ?A" by (simp add: wf_bitarray_def)
  have h2: "unat (10 :: 64 word) + unat (180 :: 64 word) \<le> unat (bit_sz ?A)" by simp
  have h3: "(5 :: 64 word) < 180" by simp
  from bitarray_rotate_right_rotation[OF h1 h2, of "- 47"] h3 have
    "\<exists>a'. bitarray_rotate ?A 10 180 (- 47) = Inr a'
         \<and> (\<exists>b. bitarray_get a' (10 + 5) = Inr b
               \<and> bitarray_get ?A
                     (10 + word_of_nat (nat ((int (unat (5 :: 64 word)) - sint (- 47 :: 64 word))
                                         mod int (unat (180 :: 64 word))))) = Inr b)"
    by blast
  with h1 h2 show ?thesis by blast
qed

text \<open>
  C2: on a well-formed array and for a range inside it, \<^verbatim>\<open>bitarray_reverse_range\<close>
  succeeds and, for every \<open>k < len\<close>, the bit at \<open>start + k\<close> afterwards is the bit
  that was at \<open>start + len - 1 - k\<close> before (both as \<^verbatim>\<open>bitarray_get\<close> returns them).
\<close>

theorem bitarray_reverse_range_reverses:
  assumes wf: "wf_bitarray a" and fit: "unat start + unat len \<le> unat (bit_sz a)"
  shows "\<exists>a'. bitarray_reverse_range a start len = Inr a'
           \<and> (\<forall>k. k < len \<longrightarrow>
                 (\<exists>b. bitarray_get a' (start + k) = Inr b
                      \<and> bitarray_get a (start + len - 1 - k) = Inr b))"
proof -
  from reverse_range_eq[OF fit wf_bits_in_buffer[OF wf]] obtain a' where
    a': "bitarray_reverse_range a start len = Inr a'" "bit_sz a' = bit_sz a"
      "length (buf a') = length (buf a)"
    and bits: "\<And>n. n < 8 * length (buf a) \<Longrightarrow> bit_at a' n =
                 (if unat start \<le> n \<and> n < unat start + unat len
                  then bit_at a (unat start + (unat start + unat len) - 1 - n) else bit_at a n)"
    by blast
  from wf a'(2,3) have wf': "wf_bitarray a'" by (simp add: wf_bitarray_def)
  have "bitarray_get a' (start + k) = Inr (bit_at a (unat (start + len - 1 - k)))
      \<and> bitarray_get a (start + len - 1 - k) = Inr (bit_at a (unat (start + len - 1 - k)))"
    if k: "k < len" for k
  proof -
    note i = unat_index_add[OF k fit] and m = unat_mirror_index[OF k fit]
    from k have kl: "unat k < unat len" by (simp add: word_less_nat_alt)
    from i(2) have "start + k < bit_sz a'" by (simp only: a'(2))
    note g = bitarray_get_bit_at[OF wf' this]
    from kl have "unat start + (unat start + unat len) - 1 - (unat start + unat k)
        = unat start + unat len - 1 - unat k" by simp
    with g(2) kl have "bit_at a' (unat (start + k)) = bit_at a (unat (start + len - 1 - k))"
      unfolding i(1) m(1) a'(3) by (simp add: bits)
    with g(1) bitarray_get_bit_at(1)[OF wf m(2)] show ?thesis by simp
  qed
  with a'(1) show ?thesis by blast
qed

text \<open>
  An instance with a bulk iteration: 180 bits from bit 10 of a 200-bit array.
\<close>

theorem bitarray_reverse_range_reverses_witness:
  "wf_bitarray \<lparr>bit_sz = 200, buf = replicate 25 7\<rparr>
   \<and> unat (10 :: 64 word) + unat (180 :: 64 word) \<le> unat (bit_sz \<lparr>bit_sz = 200, buf = replicate 25 7\<rparr>)
   \<and> (\<exists>a'. bitarray_reverse_range \<lparr>bit_sz = 200, buf = replicate 25 7\<rparr> 10 180 = Inr a'
         \<and> (\<exists>b. bitarray_get a' (10 + 2) = Inr b
               \<and> bitarray_get \<lparr>bit_sz = 200, buf = replicate 25 7\<rparr> (10 + 180 - 1 - 2) = Inr b))"
proof -
  let ?A = "\<lparr>bit_sz = 200, buf = replicate 25 7\<rparr>"
  have h1: "wf_bitarray ?A" by (simp add: wf_bitarray_def)
  have h2: "unat (10 :: 64 word) + unat (180 :: 64 word) \<le> unat (bit_sz ?A)" by simp
  have h3: "(2 :: 64 word) < 180" by simp
  from bitarray_reverse_range_reverses[OF h1 h2] h3 have
    "\<exists>a'. bitarray_reverse_range ?A 10 180 = Inr a'
         \<and> (\<exists>b. bitarray_get a' (10 + 2) = Inr b \<and> bitarray_get ?A (10 + 180 - 1 - 2) = Inr b)"
    by blast
  with h1 h2 show ?thesis by blast
qed

text \<open>
  C3: on an array whose buffer has exactly \<open>ceil(bit_sz/8)\<close> bytes and for a range
  inside it, the bulk loop of \<^verbatim>\<open>bitarray_reverse_range\<close> runs to its end: no access
  of \<^verbatim>\<open>bitarray_get_u64\<close> or \<^verbatim>\<open>bitarray_set_u64\<close> (each checked against the length
  of the buffer, the ninth byte included) is out of bounds, and the reversal as a
  whole never ends in \<open>OutOfBounds\<close>.
\<close>

theorem reverse_bulk_in_bounds:
  assumes wf: "wf_bitarray a" and fit: "unat start + unat len \<le> unat (bit_sz a)"
  shows "(\<exists>a' l r m. reverse_bulk a start (start + len) len = Inr (a', l, r, m))
           \<and> bitarray_reverse_range a start len \<noteq> Inl OutOfBounds"
proof -
  from fit have e: "unat (start + len) = unat start + unat len"
    by (rule unat_add_nat)
  with fit wf_bits_in_buffer[OF wf] have "unat (start + len) \<le> 8 * length (buf a)"
    by simp
  from reverse_bulk_eq[OF e this] have "\<exists>a' l r m. reverse_bulk a start (start + len) len = Inr (a', l, r, m)"
    by blast
  moreover from reverse_range_eq[OF fit wf_bits_in_buffer[OF wf]]
  have "bitarray_reverse_range a start len \<noteq> Inl OutOfBounds"
    by auto
  ultimately show ?thesis by blast
qed

text \<open>
  An instance where the ninth byte of the right-hand window is the last byte of the
  buffer: 128 bits from bit 3 of a 131-bit array (17 bytes).
\<close>

theorem reverse_bulk_in_bounds_witness:
  "wf_bitarray \<lparr>bit_sz = 131, buf = replicate 17 0\<rparr>
   \<and> unat (3 :: 64 word) + unat (128 :: 64 word) \<le> unat (bit_sz \<lparr>bit_sz = 131, buf = replicate 17 0\<rparr>)
   \<and> (\<exists>a' l r m. reverse_bulk \<lparr>bit_sz = 131, buf = replicate 17 0\<rparr> 3 (3 + 128) 128 = Inr (a', l, r, m))
   \<and> bitarray_reverse_range \<lparr>bit_sz = 131, buf = replicate 17 0\<rparr> 3 128 \<noteq> Inl OutOfBounds"
proof -
  let ?A = "\<lparr>bit_sz = 131, buf = replicate 17 0\<rparr>"
  have h1: "wf_bitarray ?A" by (simp add: wf_bitarray_def)
  have h2: "unat (3 :: 64 word) + unat (128 :: 64 word) \<le> unat (bit_sz ?A)" by simp
  from reverse_bulk_in_bounds[OF h1 h2] h1 h2 show ?thesis by blast
qed

text \<open>
  C4, evaluated at \<open>bit_length = 8\<close>, \<open>bit_right_amount = -8\<close>: the normalisation step
  yields 8, which is not below the length, so the early return on a zero amount is
  not taken for this exact multiple of the length.
\<close>

theorem rotate_amount_negative_multiple:
  "rotate_amount 8 (- 8) = 8 \<and> \<not> unat (rotate_amount 8 (- 8)) < unat (8 :: 64 word)"
  by (simp add: rotate_amount_def word_sless_alt)

text \<open>
  C5: when the eight bytes from byte \<open>bit_index div 8\<close> (and the ninth, when
  \<open>bit_index mod 8\<close> is not 0) are inside the buffer, \<^verbatim>\<open>bitarray_get_u64\<close> returns the
  word whose bit \<open>j\<close> is bit \<open>bit_index + j\<close> of the array, for \<open>j < 64\<close>; with
  \<open>bit_index mod 8 = 0\<close> the result is the direct eight-byte read.
\<close>

theorem bitarray_get_u64_reads_bits:
  assumes "unat bit_index div 8 + (if unat bit_index mod 8 = 0 then 8 else 9) \<le> length (buf a)"
  shows "\<exists>w. bitarray_get_u64 a bit_index = Inr w
           \<and> (\<forall>j<64. bit w j = bit_at a (unat bit_index + j))
           \<and> (bit_index mod 8 = 0 \<longrightarrow> load_u64 a (bit_index div 8) = Inr w)"
proof -
  from bitarray_get_u64_eq[OF assms] obtain w where
    w: "bitarray_get_u64 a bit_index = Inr w" "\<forall>j<64. bit w j = bit_at a (unat bit_index + j)"
    by blast
  have "load_u64 a (bit_index div 8) = Inr w" if "bit_index mod 8 = 0"
    using w(1) that by (auto simp add: bitarray_get_u64_def Let_def bind_res_def split: sum.splits)
  with w show ?thesis by blast
qed

text \<open>
  An instance: an unaligned read at bit 3 of a nine-byte buffer.
\<close>

theorem bitarray_get_u64_reads_bits_witness:
  "unat (3 :: 64 word) div 8 + (if unat (3 :: 64 word) mod 8 = 0 then 8 else 9)
     \<le> length (buf \<lparr>bit_sz = 72, buf = [1, 2, 3, 4, 5, 6, 7, 8, 9]\<rparr>)
   \<and> (\<exists>w. bitarray_get_u64 \<lparr>bit_sz = 72, buf = [1, 2, 3, 4, 5, 6, 7, 8, 9]\<rparr> 3 = Inr w
         \<and> bit w 6 = bit_at \<lparr>bit_sz = 72, buf = [1, 2, 3, 4, 5, 6, 7, 8, 9]\<rparr> (unat (3 :: 64 word) + 6))"
proof -
  let ?A = "\<lparr>bit_sz = 72, buf = [1, 2, 3, 4, 5, 6, 7, 8, 9]\<rparr>"
  have h: "unat (3 :: 64 word) div 8 + (if unat (3 :: 64 word) mod 8 = 0 then 8 else 9) \<le> length (buf ?A)"
    by simp
  from bitarray_get_u64_reads_bits[OF h] obtain w where
    "bitarray_get_u64 ?A 3 = Inr w" "\<forall>j<64. bit w j = bit_at ?A (unat (3 :: 64 word) + j)"
    by blast
  then have "bitarray_get_u64 ?A 3 = Inr w \<and> bit w 6 = bit_at ?A (unat (3 :: 64 word) + 6)"
    by simp
  with h show ?thesis by blast
qed

text \<open>
  C6: when the bytes \<^verbatim>\<open>bitarray_set_u64\<close> touches are inside the buffer, it succeeds;
  afterwards \<^verbatim>\<open>bitarray_get_u64\<close> at the same index returns \<open>v\<close>, the bits
  \<open>[bit_index, bit_index + 64)\<close> of the buffer are the bits of \<open>v\<close>, and every other
  bit of the buffer (the low bits of the first byte and the high bits of the ninth
  among them), the bit count and the buffer length are as before.
\<close>

theorem bitarray_set_u64_frame:
  assumes inb: "unat bit_index div 8 + (if unat bit_index mod 8 = 0 then 8 else 9) \<le> length (buf a)"
  shows "\<exists>a'. bitarray_set_u64 a bit_index v = Inr a'
           \<and> bitarray_get_u64 a' bit_index = Inr v
           \<and> bit_sz a' = bit_sz a \<and> length (buf a') = length (buf a)
           \<and> (\<forall>n < 8 * length (buf a). bit_at a' n =
                 (if unat bit_index \<le> n \<and> n < unat bit_index + 64
                  then bit v (n - unat bit_index) else bit_at a n))"
proof -
  from bitarray_set_u64_eq[OF inb, of v] obtain a' where
    a': "bitarray_set_u64 a bit_index v = Inr a'" "bit_sz a' = bit_sz a"
      "length (buf a') = length (buf a)"
    and bits: "\<forall>n < 8 * length (buf a). bit_at a' n =
                 (if unat bit_index \<le> n \<and> n < unat bit_index + 64
                  then bit v (n - unat bit_index) else bit_at a n)"
    by blast
  from inb have inb': "unat bit_index div 8 + (if unat bit_index mod 8 = 0 then 8 else 9)
      \<le> length (buf a')"
    by (simp only: a'(3))
  from bitarray_get_u64_eq[OF inb'] obtain w where
    w: "bitarray_get_u64 a' bit_index = Inr w" "\<And>j. j < 64 \<Longrightarrow> bit w j = bit_at a' (unat bit_index + j)"
    by blast
  from u64_bits_in_buffer[OF inb] have room: "unat bit_index + 64 \<le> 8 * length (buf a)" .
  have "w = v"
  proof (rule bit_word_eqI)
    fix j assume "j < LENGTH(64)"
    then have j: "j < 64" by simp
    with room have "unat bit_index + j < 8 * length (buf a)" by simp
    with bits j have "bit_at a' (unat bit_index + j) = bit v j" by simp
    with w(2)[OF j] show "bit w j = bit v j" by simp
  qed
  with w(1) a' bits show ?thesis by blast
qed

text \<open>
  An instance: writing 0 at bit 11 of ten bytes of ones leaves bit 10 (first touched
  byte) and bit 75 (ninth touched byte) as they were.
\<close>

theorem bitarray_set_u64_frame_witness:
  "unat (11 :: 64 word) div 8 + (if unat (11 :: 64 word) mod 8 = 0 then 8 else 9)
     \<le> length (buf \<lparr>bit_sz = 80, buf = replicate 10 255\<rparr>)
   \<and> (\<exists>a'. bitarray_set_u64 \<lparr>bit_sz = 80, buf = replicate 10 255\<rparr> 11 0 = Inr a'
         \<and> bitarray_get_u64 a' 11 = Inr 0
         \<and> bit_sz a' = bit_sz \<lparr>bit_sz = 80, buf = replicate 10 255\<rparr>
         \<and> bit_at a' 10 = bit_at \<lparr>bit_sz = 80, buf = replicate 10 255\<rparr> 10
         \<and> bit_at a' 75 = bit_at \<lparr>bit_sz = 80, buf = replicate 10 255\<rparr> 75)"
proof -
  let ?A = "\<lparr>bit_sz = 80, buf = replicate 10 255\<rparr>"
  have h: "unat (11 :: 64 word) div 8 + (if unat (11 :: 64 word) mod 8 = 0 then 8 else 9)
     \<le> length (buf ?A)" by simp
  from bitarray_set_u64_frame[OF h, of 0] obtain a' where
    a': "bitarray_set_u64 ?A 11 0 = Inr a'" "bitarray_get_u64 a' 11 = Inr 0" "bit_sz a' = bit_sz ?A"
    and bits: "\<And>n. n < 8 * length (buf ?A) \<Longrightarrow> bit_at a' n =
                 (if unat (11 :: 64 word) \<le> n \<and> n < unat (11 :: 64 word) + 64
                  then bit (0 :: 64 word) (n - unat (11 :: 64 word)) else bit_at ?A n)"
    by blast
  have "bit_at a' 10 = bit_at ?A 10" "bit_at a' 75 = bit_at ?A 75"
    by (simp_all add: bits)
  with a' h show ?thesis by blast
qed

text \<open>
  C7, as amended: on a well-formed array and for a range inside it, and for every
  \<open>k\<close> other than the least \<^verbatim>\<open>ssize_t\<close> (so that \<open>-k\<close> is the negation of \<open>k\<close>),
  rotating by \<open>k\<close> and then by \<open>-k\<close> gives back the array, every bit of its buffer
  included.
\<close>

theorem bitarray_rotate_inverse:
  assumes wf: "wf_bitarray a" and fit: "unat bit_offset + unat bit_length \<le> unat (bit_sz a)"
    and rep: "sint k \<noteq> - (2 ^ 63)"
  shows "\<exists>a1. bitarray_rotate a bit_offset bit_length k = Inr a1
           \<and> bitarray_rotate a1 bit_offset bit_length (- k) = Inr a"
proof -
  define P where "P = unat bit_offset"
  define N where "N = unat bit_length"
  define s where "s = sint k"
  note sb = wf_bits_in_buffer[OF wf]
  from bitarray_rotate_eq[OF fit sb, of k] obtain a1 where
    a1: "bitarray_rotate a bit_offset bit_length k = Inr a1" "bit_sz a1 = bit_sz a"
      "length (buf a1) = length (buf a)"
    and b1: "\<And>n. n < 8 * length (buf a) \<Longrightarrow> bit_at a1 n =
                 (if P \<le> n \<and> n < P + N then bit_at a (P + nat ((int (n - P) - s) mod int N))
                  else bit_at a n)"
    unfolding P_def N_def s_def by blast
  from fit sb have fit1: "unat bit_offset + unat bit_length \<le> unat (bit_sz a1)"
    and sb1: "unat (bit_sz a1) \<le> 8 * length (buf a1)"
    by (simp_all only: a1(2,3))
  from bitarray_rotate_eq[OF fit1 sb1, of "- k"] obtain a2 where
    a2: "bitarray_rotate a1 bit_offset bit_length (- k) = Inr a2" "bit_sz a2 = bit_sz a1"
      "length (buf a2) = length (buf a1)"
    and b2: "\<And>n. n < 8 * length (buf a) \<Longrightarrow> bit_at a2 n =
                 (if P \<le> n \<and> n < P + N then bit_at a1 (P + nat ((int (n - P) - (- s)) mod int N))
                  else bit_at a1 n)"
    unfolding P_def N_def s_def a1(3) sint_uminus[OF rep] by blast
  from fit sb have PB: "P + N \<le> 8 * length (buf a)" by (simp add: P_def N_def)
  have "bit_at a n = bit_at a2 n" if n: "n < 8 * length (buf a)" for n
  proof (cases "P \<le> n \<and> n < P + N")
    case False
    with n show ?thesis by (simp only: b2 b1 if_False simp_thms)
  next
    case True
    define j where "j = n - P"
    define m where "m = nat ((int j - (- s)) mod int N)"
    from True have j: "j < N" "n = P + j" by (auto simp add: j_def)
    then have "0 < N" by simp
    then have "m < N" unfolding m_def by (rule rot_index_less)
    with PB have m: "P + m < 8 * length (buf a)" "P \<le> P + m \<and> P + m < P + N" "P + m - P = m"
      by simp_all
    from rot_there_and_back[OF j(1), of "- s"] have rt: "nat ((int m - s) mod int N) = j"
      unfolding m_def by simp
    from True n have "bit_at a2 n = bit_at a1 (P + m)"
      unfolding m_def j_def by (simp only: b2 if_True simp_thms)
    also from m have "\<dots> = bit_at a (P + nat ((int m - s) mod int N))"
      by (simp only: b1 if_True simp_thms)
    also have "\<dots> = bit_at a n"
      by (simp only: rt j(2))
    finally show ?thesis by simp
  qed
  then have "buf a = buf a2"
    using a2(3) a1(3) by (intro buf_eqI) simp_all
  moreover have "bit_sz a = bit_sz a2" by (simp only: a2(2) a1(2))
  ultimately have "a2 = a" by simp
  with a1(1) a2(1) show ?thesis by blast
qed

text \<open>
  An instance: 180 bits from bit 10 of a 200-bit array, \<open>k = -47\<close>.
\<close>

theorem bitarray_rotate_inverse_witness:
  "wf_bitarray \<lparr>bit_sz = 200, buf = replicate 25 129\<rparr>
   \<and> unat (10 :: 64 word) + unat (180 :: 64 word)
       \<le> unat (bit_sz \<lparr>bit_sz = 200, buf = replicate 25 129\<rparr>)
   \<and> sint (- 47 :: 64 word) \<noteq> - (2 ^ 63)
   \<and> (\<exists>a1. bitarray_rotate \<lparr>bit_sz = 200, buf = replicate 25 129\<rparr> 10 180 (- 47) = Inr a1
         \<and> bitarray_rotate a1 10 180 (- (- 47)) = Inr \<lparr>bit_sz = 200, buf = replicate 25 129\<rparr>)"
proof -
  let ?A = "\<lparr>bit_sz = 200, buf = replicate 25 129\<rparr>"
  have h1: "wf_bitarray ?A" by (simp add: wf_bitarray_def)
  have h2: "unat (10 :: 64 word) + unat (180 :: 64 word) \<le> unat (bit_sz ?A)" by simp
  have h3: "sint (- 47 :: 64 word) \<noteq> - (2 ^ 63)" by simp
  from bitarray_rotate_inverse[OF h1 h2 h3] h1 h2 h3 show ?thesis by blast
qed

text \<open>
  C7 as stated fails at the least \<^verbatim>\<open>ssize_t\<close>, \<open>k = -2^63\<close>, whose negation wraps to
  \<open>k\<close> itself: on three bits each call rotates right by \<open>3 - (2^63 mod 3) = 1\<close>, and
  the bits \<open>100\<close> end as \<open>001\<close>.
\<close>

theorem bitarray_rotate_inverse_counterexample:
  "wf_bitarray \<lparr>bit_sz = 3, buf = [1]\<rparr>
   \<and> unat (0 :: 64 word) + unat (3 :: 64 word) \<le> unat (bit_sz \<lparr>bit_sz = 3, buf = [1]\<rparr>)
   \<and> bitarray_rotate \<lparr>bit_sz = 3, buf = [1]\<rparr> 0 3 (- 9223372036854775808)
       = Inr \<lparr>bit_sz = 3, buf = [2]\<rparr>
   \<and> bitarray_rotate \<lparr>bit_sz = 3, buf = [2]\<rparr> 0 3 (- (- 9223372036854775808))
       = Inr \<lparr>bit_sz = 3, buf = [4]\<rparr>
   \<and> \<lparr>bit_sz = 3, buf = [4]\<rparr> \<noteq> \<lparr>bit_sz = 3 :: 64 word, buf = [1 :: 8 word]\<rparr>"
  by code_simp

text \<open>
  C8: on a well-formed array and for a valid index \<open>i\<close>, \<^verbatim>\<open>bitarray_set(a, i, v)\<close>
  succeeds, \<^verbatim>\<open>bitarray_get(a, i)\<close> then returns \<open>v\<close>, and \<^verbatim>\<open>bitarray_get\<close> returns the
  same value as before at every other valid index.
\<close>

theorem bitarray_set_get_roundtrip:
  assumes "wf_bitarray a" and "i < bit_sz a"
  shows "\<exists>a'. bitarray_set a i v = Inr a' \<and> bitarray_get a' i = Inr v
           \<and> (\<forall>j. j < bit_sz a \<longrightarrow> j \<noteq> i \<longrightarrow>
                 (\<exists>b. bitarray_get a j = Inr b \<and> bitarray_get a' j = Inr b))"
proof -
  from assms have ib: "unat i div 8 < length (buf a)"
    by (simp add: wf_byte_in_bounds word_less_nat_alt)
  from bitarray_set_eq[OF assms(2) ib, of v] obtain a' where
    a': "bitarray_set a i v = Inr a'" "bit_sz a' = bit_sz a" "length (buf a') = length (buf a)"
      "\<And>n. bit_at a' n = (if n = unat i then v else bit_at a n)"
    by blast
  from assms(2) ib have "bitarray_get a' i = Inr v"
    by (simp add: bitarray_get_eq a')
  moreover have "\<exists>b. bitarray_get a j = Inr b \<and> bitarray_get a' j = Inr b"
    if j: "j < bit_sz a" "j \<noteq> i" for j
  proof -
    from assms(1) j(1) have jb: "unat j div 8 < length (buf a)"
      by (simp add: wf_byte_in_bounds word_less_nat_alt)
    from j(2) have "unat j \<noteq> unat i" by (simp add: word_unat_eq_iff)
    with j(1) jb show ?thesis
      by (simp add: bitarray_get_eq a')
  qed
  ultimately show ?thesis using a'(1) by blast
qed

text \<open>
  An instance: setting bit 3 of a 12-bit array, read back at 3 and at 2.
\<close>

theorem bitarray_set_get_roundtrip_witness:
  "wf_bitarray \<lparr>bit_sz = 12, buf = [5, 0]\<rparr> \<and> (3 :: 64 word) < bit_sz \<lparr>bit_sz = 12, buf = [5, 0]\<rparr>
   \<and> (\<exists>a'. bitarray_set \<lparr>bit_sz = 12, buf = [5, 0]\<rparr> 3 True = Inr a' \<and> bitarray_get a' 3 = Inr True
         \<and> (\<exists>b. bitarray_get \<lparr>bit_sz = 12, buf = [5, 0]\<rparr> 2 = Inr b \<and> bitarray_get a' 2 = Inr b))"
proof -
  let ?A = "\<lparr>bit_sz = 12, buf = [5, 0]\<rparr>"
  have h1: "wf_bitarray ?A" by (simp add: wf_bitarray_def)
  have h2: "(3 :: 64 word) < bit_sz ?A" by simp
  from bitarray_set_get_roundtrip[OF h1 h2, of True] obtain a' where
    a': "bitarray_set ?A 3 True = Inr a'" "bitarray_get a' 3 = Inr True"
      "\<And>j. j < bit_sz ?A \<Longrightarrow> j \<noteq> 3 \<Longrightarrow> \<exists>b. bitarray_get ?A j = Inr b \<and> bitarray_get a' j = Inr b"
    by blast
  have "(2 :: 64 word) < bit_sz ?A" "(2 :: 64 word) \<noteq> 3" by simp_all
  from a'(3)[OF this] a'(1,2) h1 h2 show ?thesis by blast
qed

text \<open>
  C9: \<^verbatim>\<open>bitarray_rotate\<close> with length 0 and with length 1 returns the array as it
  was, for every offset and every amount \<open>r\<close>.
\<close>

theorem bitarray_rotate_boundary:
  "bitarray_rotate a bit_offset 0 r = Inr a \<and> bitarray_rotate a bit_offset 1 r = Inr a"
proof -
  have "rotate_amount 1 r = 0 \<or> rotate_amount 1 r = 1"
    by (simp add: rotate_amount_def)
  then have "bitarray_rotate a bit_offset 1 r = Inr a"
    by (auto simp add: bitarray_rotate_def reverse_range_short)
  then show ?thesis
    by (simp add: bitarray_rotate_def)
qed

text \<open>
  C10: on a well-formed array and for a range inside it, \<^verbatim>\<open>bitarray_rotate\<close> succeeds,
  leaves \<^verbatim>\<open>bitarray_get_bit_sz\<close> as it was, and leaves every bit outside
  \<open>[bit_offset, bit_offset + bit_length)\<close> as it was: \<^verbatim>\<open>bitarray_get\<close> returns the same
  value at every valid index outside the range, and the padding bits of the last
  byte are unchanged too.
\<close>

theorem bitarray_rotate_frame:
  assumes wf: "wf_bitarray a" and fit: "unat bit_offset + unat bit_length \<le> unat (bit_sz a)"
  shows "\<exists>a'. bitarray_rotate a bit_offset bit_length r = Inr a'
           \<and> bitarray_get_bit_sz a' = bitarray_get_bit_sz a
           \<and> (\<forall>j. j < bit_sz a \<longrightarrow>
                   (unat j < unat bit_offset \<or> unat bit_offset + unat bit_length \<le> unat j) \<longrightarrow>
                   (\<exists>b. bitarray_get a j = Inr b \<and> bitarray_get a' j = Inr b))
           \<and> (\<forall>n < 8 * length (buf a).
                   (n < unat bit_offset \<or> unat bit_offset + unat bit_length \<le> n) \<longrightarrow>
                   bit_at a' n = bit_at a n)"
proof -
  from bitarray_rotate_eq[OF fit wf_bits_in_buffer[OF wf], of r] obtain a' where
    a': "bitarray_rotate a bit_offset bit_length r = Inr a'" "bit_sz a' = bit_sz a"
      "length (buf a') = length (buf a)"
    and bits: "\<And>n. n < 8 * length (buf a) \<Longrightarrow> bit_at a' n =
                 (if unat bit_offset \<le> n \<and> n < unat bit_offset + unat bit_length
                  then bit_at a (unat bit_offset
                         + nat ((int (n - unat bit_offset) - sint r) mod int (unat bit_length)))
                  else bit_at a n)"
    by blast
  from wf a'(2,3) have wf': "wf_bitarray a'" by (simp add: wf_bitarray_def)
  have out: "bit_at a' n = bit_at a n"
    if "n < 8 * length (buf a)" "n < unat bit_offset \<or> unat bit_offset + unat bit_length \<le> n" for n
    using that by (auto simp add: bits)
  have "\<exists>b. bitarray_get a j = Inr b \<and> bitarray_get a' j = Inr b"
    if j: "j < bit_sz a" "unat j < unat bit_offset \<or> unat bit_offset + unat bit_length \<le> unat j" for j
  proof -
    note g = bitarray_get_bit_at[OF wf j(1)]
    from j(1) have "j < bit_sz a'" by (simp only: a'(2))
    note g' = bitarray_get_bit_at[OF wf' this]
    from out[OF g(2) j(2)] g(1) g'(1) show ?thesis by simp
  qed
  with a'(1,2) out show ?thesis
    by (simp add: bitarray_get_bit_sz_def)
qed

text \<open>
  An instance: bits 9 and 190 of a 200-bit array around the rotated range
  \<open>[10, 190)\<close>.
\<close>

theorem bitarray_rotate_frame_witness:
  "wf_bitarray \<lparr>bit_sz = 200, buf = replicate 25 3\<rparr>
   \<and> unat (10 :: 64 word) + unat (180 :: 64 word) \<le> unat (bit_sz \<lparr>bit_sz = 200, buf = replicate 25 3\<rparr>)
   \<and> (\<exists>a'. bitarray_rotate \<lparr>bit_sz = 200, buf = replicate 25 3\<rparr> 10 180 47 = Inr a'
         \<and> bitarray_get_bit_sz a' = bitarray_get_bit_sz \<lparr>bit_sz = 200, buf = replicate 25 3\<rparr>
         \<and> (\<exists>b. bitarray_get \<lparr>bit_sz = 200, buf = replicate 25 3\<rparr> 9 = Inr b
               \<and> bitarray_get a' 9 = Inr b)
         \<and> bit_at a' 190 = bit_at \<lparr>bit_sz = 200, buf = replicate 25 3\<rparr> 190)"
proof -
  let ?A = "\<lparr>bit_sz = 200, buf = replicate 25 3\<rparr>"
  have h1: "wf_bitarray ?A" by (simp add: wf_bitarray_def)
  have h2: "unat (10 :: 64 word) + unat (180 :: 64 word) \<le> unat (bit_sz ?A)" by simp
  from bitarray_rotate_frame[OF h1 h2, of 47] obtain a' where
    a': "bitarray_rotate ?A 10 180 47 = Inr a'" "bitarray_get_bit_sz a' = bitarray_get_bit_sz ?A"
    and gets: "\<And>j. j < bit_sz ?A \<Longrightarrow>
                   (unat j < unat (10 :: 64 word) \<or> unat (10 :: 64 word) + unat (180 :: 64 word) \<le> unat j) \<Longrightarrow>
                   (\<exists>b. bitarray_get ?A j = Inr b \<and> bitarray_get a' j = Inr b)"
    and raw: "\<And>n. n < 8 * length (buf ?A) \<Longrightarrow>
                   (n < unat (10 :: 64 word) \<or> unat (10 :: 64 word) + unat (180 :: 64 word) \<le> n) \<Longrightarrow>
                   bit_at a' n = bit_at ?A n"
    by blast
  have "\<exists>b. bitarray_get ?A 9 = Inr b \<and> bitarray_get a' 9 = Inr b"
    by (rule gets) simp_all
  moreover have "bit_at a' 190 = bit_at ?A 190"
    by (rule raw) simp_all
  ultimately show ?thesis using a' h1 h2 by blast
qed

end
